theory Spec2Isabelle
  imports Complex_Main "HOL-Library.Word"
begin

section \<open>Data model of the client (server\_connection.hpp)\<close>

text \<open>
  Conventions of the embedding.
  \<^item> In \<open>server_connection.hpp\<close> a C++ \<open>double\<close> is modelled as a \<open>real\<close>: sums,
    products and quotients are the exact ones, rounding and the special values of IEEE 754
    are outside the model. The one place where the exact quotient does not exist, a
    division by a zero count, is an explicit error outcome. In \<open>unit.cpp\<close>, where the
    rounding decides whether a loop ends, \<open>float\<close> and \<open>double\<close> are modelled with
    their rounding (see there).
  \<^item> A \<open>TimePoint\<close> is the number of seconds on the monotonic clock, a \<open>real\<close>;
    \<open>SecondsDuration(a - b).count()\<close> is \<open>a - b\<close>. \<open>Clock::now()\<close> is an input.
  \<^item> \<open>u64\<close> is \<open>64 word\<close>, a byte is \<open>8 word\<close>, \<open>QByteArray\<close> is a list of bytes.
  \<^item> What the object does to the outside (socket calls, log lines, emitted Qt signals) is
    recorded in lists that are part of the state.
\<close>

type_synonym byte = "8 word"
type_synonym TimePoint = real

datatype error = DivisionByZero | IndexOutOfRange

datatype socket_op = SocketWrite "byte list" int | SocketFlush

datatype log_entry = LogError string int nat

datatype signal =
    NewMessage "byte list" "byte list" nat
  | NewPingMeasurement int
  | ConnectionLost

record ServerConnection =
  socket :: "socket_op list"
  logged :: "log_entry list"
  emitted :: "signal list"
  unparsedReceivedBuffer :: "byte list"
  connectionToServerLost :: bool
  connectionStartTime :: TimePoint
  lastTimeOffsets :: "real list"
  lastPings :: "real list"
  lastPingResponseTime :: TimePoint
  sentPings :: "(64 word \<times> TimePoint) list"
  nextPingNumber :: "64 word"

section \<open>EstimateCurrentPingAndOffset\<close>

text \<open>
  The \<open>for\<close> loop of \<open>EstimateCurrentPingAndOffset\<close>: \<open>i\<close> runs up to
  \<open>lastTimeOffsets.size()\<close> and reads both vectors at \<open>i\<close>. A read of \<open>lastPings\<close>
  beyond its end has no defined value in C++ and is the outcome \<open>IndexOutOfRange\<close>.
\<close>

function estimate_loop ::
  "real list \<Rightarrow> real list \<Rightarrow> nat \<Rightarrow> real \<Rightarrow> real \<Rightarrow> error + real \<times> real" where
  "estimate_loop offsets pings i offsetSum pingSum =
     (if i < length offsets then
        (if i < length pings then
           estimate_loop offsets pings (Suc i) (offsetSum + offsets ! i) (pingSum + pings ! i)
         else Inl IndexOutOfRange)
      else Inr (offsetSum, pingSum))"
  by pat_completeness auto
termination
  by (relation "measure (\<lambda>(offsets, pings, i, offsetSum, pingSum). length offsets - i)") auto

declare estimate_loop.simps [simp del]

text \<open>
  The quotient \<open>sum / v.size()\<close> of a \<open>double\<close> by a \<open>size_t\<close>. For an empty vector the
  divisor is zero: HOL's \<open>x / 0 = 0\<close> is not what the program does, so the case is the
  outcome \<open>DivisionByZero\<close>.
\<close>

definition div_by_size :: "real \<Rightarrow> nat \<Rightarrow> error + real" where
  "div_by_size x n = (if n = 0 then Inl DivisionByZero else Inr (x / real n))"

text \<open>The result pair is \<open>(filteredPing, filteredOffset)\<close>, the two output parameters.\<close>

definition EstimateCurrentPingAndOffset :: "ServerConnection \<Rightarrow> error + real \<times> real" where
  "EstimateCurrentPingAndOffset s =
     (case estimate_loop (lastTimeOffsets s) (lastPings s) 0 0 0 of
        Inl e \<Rightarrow> Inl e
      | Inr (offsetSum, pingSum) \<Rightarrow>
          (case div_by_size offsetSum (length (lastTimeOffsets s)) of
             Inl e \<Rightarrow> Inl e
           | Inr filteredOffset \<Rightarrow>
               (case div_by_size pingSum (length (lastPings s)) of
                  Inl e \<Rightarrow> Inl e
                | Inr filteredPing \<Rightarrow> Inr (filteredPing, filteredOffset))))"

section \<open>GetDisplayedServerTime\<close>

definition kSafetyMargin :: real where
  "kSafetyMargin = 0.010"

text \<open>\<open>now\<close> is the value of \<open>Clock::now()\<close> at the call.\<close>

definition GetDisplayedServerTime :: "ServerConnection \<Rightarrow> TimePoint \<Rightarrow> error + real" where
  "GetDisplayedServerTime s now =
     (case EstimateCurrentPingAndOffset s of
        Inl e \<Rightarrow> Inl e
      | Inr (filteredPing, filteredOffset) \<Rightarrow>
          (let clientTimeSeconds = now - connectionStartTime s;
               estimatedServerTimeNow = clientTimeSeconds + filteredOffset
           in Inr (estimatedServerTimeNow - 0.5 * filteredPing - kSafetyMargin)))"

section \<open>Write and ConnectionToServerLost\<close>

text \<open>
  \<open>Write\<close> calls \<open>socket.write(message)\<close> once, compares the returned count with the
  size of the message, logs on a difference and calls \<open>socket.flush()\<close>. The count
  \<open>result\<close> is decided by the transport (Qt returns the number of bytes accepted, or -1),
  so it is an input of the model. The function returns \<open>void\<close>: the new state is all
  there is.
\<close>

definition Write :: "int \<Rightarrow> byte list \<Rightarrow> ServerConnection \<Rightarrow> ServerConnection" where
  "Write result message s =
     (let s1 = s\<lparr>socket := socket s @ [SocketWrite message result]\<rparr>;
          s2 = (if result \<noteq> int (length message)
                then s1\<lparr>logged := logged s1 @
                       [LogError ''Error sending message'' result (length message)]\<rparr>
                else s1)
      in s2\<lparr>socket := socket s2 @ [SocketFlush]\<rparr>)"

definition ConnectionToServerLost :: "ServerConnection \<Rightarrow> bool" where
  "ConnectionToServerLost s = connectionToServerLost s"

section \<open>The byte-stream framer\<close>

text \<open>
  Little-endian unsigned numbers over bytes, for the length field of the frame header.
\<close>

fun le_decode :: "byte list \<Rightarrow> nat" where
  "le_decode [] = 0"
| "le_decode (b # bs) = unat b + 256 * le_decode bs"

fun le_encode :: "nat \<Rightarrow> nat \<Rightarrow> byte list" where
  "le_encode 0 n = []"
| "le_encode (Suc w) n = word_of_nat (n mod 256) # le_encode w (n div 256)"

text \<open>
  Modelled from the spec: the body of \<open>TryParseMessages\<close>, which the header declares and
  \<open>server_connection.cpp\<close> (not among the sources) defines. The spec, sections 4.1 and 6:
  a message on the wire is a fixed-size header with a message-type tag and a payload length,
  followed by that many payload bytes; the operation repeatedly extracts one full message
  from the front of the buffer, stops without error when fewer bytes than a header or than
  the declared length are there, removes the consumed bytes and raises one
  message-available event with type, length and payload. The widths are left open by the
  spec: the tag is \<open>tagWidth\<close> bytes (a parameter), the length is the \<open>u16\<close> of the signal
  \<open>NewMessage\<close>, two bytes, low byte first.
\<close>

definition headerSize :: "nat \<Rightarrow> nat" where
  "headerSize tagWidth = tagWidth + 2"

function parse_messages :: "nat \<Rightarrow> byte list \<Rightarrow> signal list \<times> byte list" where
  "parse_messages tagWidth buf =
     (if length buf < headerSize tagWidth then ([], buf)
      else
        (let msgType = take tagWidth buf;
             msgLength = le_decode (take 2 (drop tagWidth buf))
         in if length buf < headerSize tagWidth + msgLength then ([], buf)
            else
              (let payload = take msgLength (drop (headerSize tagWidth) buf);
                   (events, rest) =
                      parse_messages tagWidth (drop (headerSize tagWidth + msgLength) buf)
               in (NewMessage payload msgType msgLength # events, rest))))"
  by pat_completeness auto
termination
  by (relation "measure (\<lambda>(tagWidth, buf). length buf)") (auto simp: headerSize_def)

declare parse_messages.simps [simp del]

definition TryParseMessages :: "nat \<Rightarrow> ServerConnection \<Rightarrow> ServerConnection" where
  "TryParseMessages tagWidth s =
     (let (events, rest) = parse_messages tagWidth (unparsedReceivedBuffer s)
      in s\<lparr>unparsedReceivedBuffer := rest, emitted := emitted s @ events\<rparr>)"

text \<open>
  Modelled from the spec: the readable-data notification with automatic parsing switched
  on (section 4.1): the bytes read from the transport are appended to the buffer, then
  \<open>TryParseMessages\<close> runs. \<open>receive_chunks\<close> is a sequence of such notifications.
\<close>

definition receive_chunk :: "nat \<Rightarrow> ServerConnection \<Rightarrow> byte list \<Rightarrow> ServerConnection" where
  "receive_chunk tagWidth s chunk =
     TryParseMessages tagWidth
       (s\<lparr>unparsedReceivedBuffer := unparsedReceivedBuffer s @ chunk\<rparr>)"

definition receive_chunks :: "nat \<Rightarrow> ServerConnection \<Rightarrow> byte list list \<Rightarrow> ServerConnection" where
  "receive_chunks tagWidth s chunks = foldl (receive_chunk tagWidth) s chunks"

text \<open>
  The sender's side of the framing of section 6, \<open>[tag][payload length][payload]\<close>, for a
  message given as its tag bytes and its payload, and the event it has to produce.
\<close>

definition encode_message :: "byte list \<times> byte list \<Rightarrow> byte list" where
  "encode_message m = fst m @ le_encode 2 (length (snd m)) @ snd m"

definition message_event :: "byte list \<times> byte list \<Rightarrow> signal" where
  "message_event m = NewMessage (snd m) (fst m) (length (snd m))"

definition well_formed_message :: "nat \<Rightarrow> byte list \<times> byte list \<Rightarrow> bool" where
  "well_formed_message tagWidth m \<longleftrightarrow> length (fst m) = tagWidth \<and> length (snd m) < 65536"

section \<open>The ping probe scheduler and the sample window\<close>

text \<open>
  The conversion of a \<open>double\<close> to \<open>int\<close> for the milliseconds of the
  \<open>NewPingMeasurement\<close> signal drops the fraction, towards zero. The model's \<open>int\<close> is
  unbounded here: a value beyond the range of the 32-bit \<open>int\<close> has no defined conversion
  in C++ and is outside the model of the connection, as the rounding of \<open>double\<close> is.
\<close>

definition static_cast_int :: "real \<Rightarrow> int" where
  "static_cast_int x = (if 0 \<le> x then \<lfloor>x\<rfloor> else \<lceil>x\<rceil>)"

text \<open>
  Modelled from the spec: the sample window's insertion, part of the handling of a ping
  response in \<open>server_connection.cpp\<close> (not among the sources). The spec, section 4.3:
  ``on each new sample, evicts the oldest if at capacity, appends the new pair''.
\<close>

definition add_sample :: "nat \<Rightarrow> real \<Rightarrow> real \<Rightarrow> ServerConnection \<Rightarrow> ServerConnection" where
  "add_sample capacity ping offset s =
     (let s1 = (if length (lastTimeOffsets s) = capacity
                then s\<lparr>lastTimeOffsets := tl (lastTimeOffsets s), lastPings := tl (lastPings s)\<rparr>
                else s)
      in s1\<lparr>lastTimeOffsets := lastTimeOffsets s1 @ [offset],
            lastPings := lastPings s1 @ [ping]\<rparr>)"

text \<open>
  Modelled from the spec: the body of \<open>HandlePingResponseMessage\<close>, declared in the header
  and defined in \<open>server_connection.cpp\<close> (not among the sources), for a response that
  carries the sequence number \<open>number\<close> and the server's timestamp \<open>serverTime\<close>. The spec,
  section 4.2: locate the matching outstanding record; if found, compute the round-trip
  time (receive time minus send time, in milliseconds), discard all outstanding records
  with sequence number at most the matched one, update \<open>lastPingResponseTime\<close>, feed the
  round-trip time into the estimator and emit the new-measurement event with the
  milliseconds. Section 4.3 gives the offset sample as
  \<open>tS + roundTripSeconds/2 - localElapsedAtReceive\<close>, and section 3 the unit of
  \<open>lastPings\<close> as milliseconds.
\<close>

definition HandlePingResponseMessage ::
  "nat \<Rightarrow> 64 word \<Rightarrow> real \<Rightarrow> TimePoint \<Rightarrow> ServerConnection \<Rightarrow> ServerConnection" where
  "HandlePingResponseMessage capacity number serverTime receiveTime s =
     (case find (\<lambda>item. fst item = number) (sentPings s) of
        None \<Rightarrow> s
      | Some item \<Rightarrow>
          (let roundTripSeconds = receiveTime - snd item;
               roundTripMilliseconds = 1000 * roundTripSeconds;
               localElapsedAtReceive = receiveTime - connectionStartTime s;
               offset = serverTime + roundTripSeconds / 2 - localElapsedAtReceive;
               s1 = s\<lparr>sentPings := filter (\<lambda>r. \<not> fst r \<le> fst item) (sentPings s),
                      lastPingResponseTime := receiveTime\<rparr>;
               s2 = add_sample capacity roundTripMilliseconds offset s1
           in s2\<lparr>emitted := emitted s2 @
                   [NewPingMeasurement (static_cast_int roundTripMilliseconds)]\<rparr>))"

text \<open>
  Modelled from the spec: the body of \<open>PingAndCheckConnection\<close>, the timer tick, declared
  in the header and defined in \<open>server_connection.cpp\<close> (not among the sources). The
  spec, section 4.2: the timeout check comes first; when no response has been received for
  longer than the timeout since \<open>lastPingResponseTime\<close>, the flag is set and the
  connection-lost event is emitted, once and not again on later ticks, and no probe is
  queued; otherwise one probe with the next sequence number is written and
  \<open>(sequenceNumber, sendTime)\<close> is recorded. \<open>probe\<close> is the wire encoding of a probe,
  which the spec leaves to the message layer, and \<open>result\<close> is what the transport returns
  for the write.
\<close>

definition PingAndCheckConnection ::
  "real \<Rightarrow> (64 word \<Rightarrow> TimePoint \<Rightarrow> byte list) \<Rightarrow> TimePoint \<Rightarrow> int \<Rightarrow>
   ServerConnection \<Rightarrow> ServerConnection" where
  "PingAndCheckConnection timeout probe now result s =
     (if timeout < now - lastPingResponseTime s then
        (if connectionToServerLost s then s
         else s\<lparr>connectionToServerLost := True, emitted := emitted s @ [ConnectionLost]\<rparr>)
      else
        (let s1 = Write result (probe (nextPingNumber s) now) s
         in s1\<lparr>sentPings := sentPings s1 @ [(nextPingNumber s1, now)],
               nextPingNumber := nextPingNumber s1 + 1\<rparr>))"

text \<open>
  Modelled from the spec: the state that a successful \<open>ConnectToServer\<close> leaves
  (its body is in \<open>server_connection.cpp\<close>, not among the sources). Section 4.4: it
  records \<open>connectionStartTime\<close> and arms the scheduler; section 4.2 counts the timeout
  from the connection start while no response has arrived, so \<open>lastPingResponseTime\<close>
  starts there. The vectors are empty and the flag is \<open>false\<close>, as the header
  initialises them.
\<close>

definition connected :: "TimePoint \<Rightarrow> ServerConnection" where
  "connected t0 =
     \<lparr>socket = [], logged = [], emitted = [], unparsedReceivedBuffer = [],
      connectionToServerLost = False, connectionStartTime = t0,
      lastTimeOffsets = [], lastPings = [], lastPingResponseTime = t0,
      sentPings = [], nextPingNumber = 0\<rparr>"

text \<open>
  What can happen to a connection in the single thread that owns it (section 5): a timer
  tick at a time, with the transport's answer to the probe's write, or a ping response
  with its sequence number, server timestamp and receive time.
\<close>

datatype input =
    TimerTick TimePoint int
  | PingResponse "64 word" real TimePoint

record settings =
  timeoutSeconds :: real
  windowCapacity :: nat
  probeMessage :: "64 word \<Rightarrow> TimePoint \<Rightarrow> byte list"

fun step :: "settings \<Rightarrow> ServerConnection \<Rightarrow> input \<Rightarrow> ServerConnection" where
  "step cfg s (TimerTick now result) =
     PingAndCheckConnection (timeoutSeconds cfg) (probeMessage cfg) now result s"
| "step cfg s (PingResponse number serverTime receiveTime) =
     HandlePingResponseMessage (windowCapacity cfg) number serverTime receiveTime s"

definition run :: "settings \<Rightarrow> ServerConnection \<Rightarrow> input list \<Rightarrow> ServerConnection" where
  "run cfg s inputs = foldl (step cfg) s inputs"

text \<open>A run of completed round trips as the window sees it: pairs \<open>(ping, offset)\<close>.\<close>

definition add_samples :: "nat \<Rightarrow> ServerConnection \<Rightarrow> (real \<times> real) list \<Rightarrow> ServerConnection" where
  "add_samples capacity s samples =
     foldl (\<lambda>s sample. add_sample capacity (fst sample) (snd sample) s) s samples"

section \<open>The animation frame of a unit (unit.cpp)\<close>

subsection \<open>The arithmetic of \<open>float\<close> and \<open>double\<close>\<close>

text \<open>
  Whether the loop of \<open>ClientUnit::Render\<close> ends depends on how its sums round, so here
  \<open>float\<close> and \<open>double\<close> are the binary32 and binary64 formats of IEEE 754 and every
  operation rounds its exact result once, to nearest with ties to even (no fused
  multiply-add, no excess precision, no flushing of subnormal numbers). A value is a
  finite real, an infinity or a NaN. The two zeros are one value: the code neither divides
  by a zero nor looks at its sign.
\<close>

datatype fp = Finite real | PlusInfinity | MinusInfinity | NaN

text \<open>The integer nearest to \<open>m\<close>; of two equally near, the even one.\<close>

definition round_half_even :: "real \<Rightarrow> int" where
  "round_half_even m =
     (let f = \<lfloor>m\<rfloor>
      in if m - of_int f < 1 / 2 then f
         else if 1 / 2 < m - of_int f then f + 1
         else if even f then f else f + 1)"

text \<open>
  A format with \<open>p\<close> significant bits and least normal exponent \<open>emin\<close>: around
  \<open>x\<close>, with \<open>2 ^ e \<le> \<bar>x\<bar> < 2 ^ (e + 1)\<close>, its numbers are the multiples of
  \<open>2 ^ (e - p + 1)\<close>; below \<open>2 ^ emin\<close> (the subnormal numbers) the multiples of
  \<open>2 ^ (emin - p + 1)\<close>. \<open>round_to_grid\<close> is the nearest of them, without a bound on the
  exponent.
\<close>

definition ulp_exponent :: "nat \<Rightarrow> int \<Rightarrow> real \<Rightarrow> int" where
  "ulp_exponent p emin x = max \<lfloor>log 2 \<bar>x\<bar>\<rfloor> emin - int p + 1"

definition round_to_grid :: "nat \<Rightarrow> int \<Rightarrow> real \<Rightarrow> real" where
  "round_to_grid p emin x =
     (if x = 0 then 0
      else (let u = 2 powr of_int (ulp_exponent p emin x)
            in of_int (round_half_even (x / u)) * u))"

text \<open>
  The value of the format for the exact result \<open>x\<close>: the rounded number, or an infinity
  when that is \<open>2 ^ (emax + 1)\<close> or more in magnitude.
\<close>

definition to_format :: "nat \<Rightarrow> int \<Rightarrow> int \<Rightarrow> real \<Rightarrow> fp" where
  "to_format p emin emax x =
     (let r = round_to_grid p emin x
      in if 2 powr of_int (emax + 1) \<le> r then PlusInfinity
         else if r \<le> - (2 powr of_int (emax + 1)) then MinusInfinity
         else Finite r)"

text \<open>binary64 (\<open>double\<close>) and binary32 (\<open>float\<close>).\<close>

definition fl64 :: "real \<Rightarrow> fp" where
  "fl64 = to_format 53 (- 1022) 1023"

definition fl32 :: "real \<Rightarrow> fp" where
  "fl32 = to_format 24 (- 126) 127"

text \<open>
  The operations the loop uses, each with the rounding \<open>rnd\<close> of the format it is
  computed in: sum and difference, the product with and the quotient by a positive finite
  constant (the code multiplies and divides by \<open>framesPerSecond = 30.f\<close> only), and
  \<open><\<close>, which is false whenever a NaN is compared.
\<close>

fun fp_neg :: "fp \<Rightarrow> fp" where
  "fp_neg (Finite a) = Finite (- a)"
| "fp_neg PlusInfinity = MinusInfinity"
| "fp_neg MinusInfinity = PlusInfinity"
| "fp_neg NaN = NaN"

fun fp_add :: "(real \<Rightarrow> fp) \<Rightarrow> fp \<Rightarrow> fp \<Rightarrow> fp" where
  "fp_add rnd (Finite a) (Finite b) = rnd (a + b)"
| "fp_add rnd NaN b = NaN"
| "fp_add rnd a NaN = NaN"
| "fp_add rnd PlusInfinity MinusInfinity = NaN"
| "fp_add rnd MinusInfinity PlusInfinity = NaN"
| "fp_add rnd PlusInfinity b = PlusInfinity"
| "fp_add rnd a PlusInfinity = PlusInfinity"
| "fp_add rnd MinusInfinity b = MinusInfinity"
| "fp_add rnd a MinusInfinity = MinusInfinity"

definition fp_sub :: "(real \<Rightarrow> fp) \<Rightarrow> fp \<Rightarrow> fp \<Rightarrow> fp" where
  "fp_sub rnd a b = fp_add rnd a (fp_neg b)"

fun fp_mul_pos :: "(real \<Rightarrow> fp) \<Rightarrow> real \<Rightarrow> fp \<Rightarrow> fp" where
  "fp_mul_pos rnd c (Finite a) = rnd (c * a)"
| "fp_mul_pos rnd c x = x"

fun fp_div_pos :: "(real \<Rightarrow> fp) \<Rightarrow> fp \<Rightarrow> real \<Rightarrow> fp" where
  "fp_div_pos rnd (Finite a) c = rnd (a / c)"
| "fp_div_pos rnd x c = x"

fun fp_less :: "fp \<Rightarrow> fp \<Rightarrow> bool" where
  "fp_less (Finite a) (Finite b) = (a < b)"
| "fp_less NaN b = False"
| "fp_less a NaN = False"
| "fp_less MinusInfinity MinusInfinity = False"
| "fp_less MinusInfinity b = True"
| "fp_less a MinusInfinity = False"
| "fp_less PlusInfinity b = False"
| "fp_less a PlusInfinity = True"

text \<open>\<open>std::min(a, b)\<close> is \<open>(b < a) ? b : a\<close>.\<close>

definition std_min :: "fp \<Rightarrow> fp \<Rightarrow> fp" where
  "std_min a b = (if fp_less b a then b else a)"

text \<open>
  What can go wrong in the animation update without the loop running on: the conversion
  of a \<open>double\<close> to \<open>int\<close> when the value without its fraction is not an \<open>int\<close>
  (undefined in C++), a remainder by a size of zero, a quotient by zero.
\<close>

datatype render_error = UndefinedConversion | RemainderByZero | QuotientByZero

text \<open>
  \<open>static_cast<int>\<close> of a \<open>double\<close>: the fraction is dropped, towards zero; the result
  has to be a 32-bit \<open>int\<close>.
\<close>

definition double_to_int :: "fp \<Rightarrow> render_error + int" where
  "double_to_int x =
     (case x of
        Finite r \<Rightarrow>
          (let t = (if 0 \<le> r then \<lfloor>r\<rfloor> else \<lceil>r\<rceil>)
           in if - 2147483648 \<le> t \<and> t \<le> 2147483647 then Inr t else Inl UndefinedConversion)
      | PlusInfinity \<Rightarrow> Inl UndefinedConversion
      | MinusInfinity \<Rightarrow> Inl UndefinedConversion
      | NaN \<Rightarrow> Inl UndefinedConversion)"

subsection \<open>The loop of \<open>ClientUnit::Render\<close>\<close>

text \<open>
  The part of \<open>ClientUnit\<close> that \<open>Render\<close> reads and writes while it picks the frame;
  \<open>lastAnimationStartTime\<close> is a \<open>double\<close>. \<open>rand()\<close> is a stream of numbers given from
  outside; \<open>randCalls\<close> counts the calls made.
\<close>

record ClientUnit =
  direction :: int
  currentAnimationVariant :: nat
  lastAnimationStartTime :: fp
  randCalls :: nat

text \<open>The division of two C++ \<open>int\<close>s, which truncates towards zero.\<close>

definition cpp_div :: "int \<Rightarrow> int \<Rightarrow> int" where
  "cpp_div a b = sgn a * sgn b * (\<bar>a\<bar> div \<bar>b\<bar>)"

text \<open>
  Line 176:
  \<open>frame = std::max(0, static_cast<int>(framesPerSecond * (serverTime - lastAnimationStartTime) + 0.5f))\<close>.
  The difference is a \<open>double\<close>; \<open>30.f\<close> and \<open>0.5f\<close> are converted to \<open>double\<close>
  (exactly), so the product and the sum are \<open>double\<close> operations.
\<close>

definition compute_frame :: "fp \<Rightarrow> ClientUnit \<Rightarrow> render_error + int" where
  "compute_frame serverTime u =
     (case double_to_int
             (fp_add fl64
                (fp_mul_pos fl64 30 (fp_sub fl64 serverTime (lastAnimationStartTime u)))
                (Finite 0.5)) of
        Inl e \<Rightarrow> Inl e
      | Inr c \<Rightarrow> Inr (max 0 c))"

text \<open>
  Line 182, the new value of \<open>lastAnimationStartTime\<close>:
  \<open>std::min(serverTime, lastAnimationStartTime + framesPerDirection / framesPerSecond)\<close>.
  The quotient is a \<open>float\<close> operation: the \<open>int\<close> is converted to \<open>float\<close> (rounded to
  nearest) and divided by \<open>30.f\<close>. Its result is converted to \<open>double\<close> (exactly) and
  added in \<open>double\<close>.
\<close>

definition next_start :: "int \<Rightarrow> fp \<Rightarrow> ClientUnit \<Rightarrow> fp" where
  "next_start framesPerDirection serverTime u =
     std_min serverTime
       (fp_add fl64 (lastAnimationStartTime u)
          (fp_div_pos fl32 (fl32 (real_of_int framesPerDirection)) 30))"

text \<open>
  The \<open>while (true)\<close> loop of \<open>Render\<close>, lines 175 to 189. \<open>framesPerDirection\<close> and the
  sprite are fixed before the loop and not read again inside it; \<open>numVariants\<close> is
  \<open>unitType.GetAnimations(currentAnimation).size()\<close>. The loop has no bound of its own, so
  not returning is the value \<open>None\<close>. The result is the \<open>frame\<close> at the \<open>break\<close> and the
  unit as the loop leaves it.
\<close>

partial_function (option) animation_loop ::
  "(nat \<Rightarrow> nat) \<Rightarrow> nat \<Rightarrow> int \<Rightarrow> fp \<Rightarrow> ClientUnit \<Rightarrow> (render_error + int \<times> ClientUnit) option" where
  "animation_loop rand numVariants framesPerDirection serverTime u =
     (case compute_frame serverTime u of
        Inl e \<Rightarrow> Some (Inl e)
      | Inr frame \<Rightarrow>
          if frame < framesPerDirection then Some (Inr (frame, u))
          else
            (let u1 = u\<lparr>lastAnimationStartTime := next_start framesPerDirection serverTime u\<rparr>
             in if currentAnimationVariant u1 = 1
                then animation_loop rand numVariants framesPerDirection serverTime
                       (u1\<lparr>currentAnimationVariant := 0\<rparr>)
                else if numVariants = 0 then Some (Inl RemainderByZero)
                else animation_loop rand numVariants framesPerDirection serverTime
                       (u1\<lparr>currentAnimationVariant := rand (randCalls u1) mod numVariants,
                           randCalls := Suc (randCalls u1)\<rparr>)))"

text \<open>
  The animation update of \<open>Render\<close>, lines 167 to 189: \<open>framesPerDirection\<close>, the
  initialisation of a negative \<open>lastAnimationStartTime\<close>, and the loop. \<open>numFrames\<close> is
  \<open>sprite.NumFrames()\<close> of the current sprite and \<open>kNumFacingDirections\<close> the constant of
  that name, whose declaration is in another file. The result is that of the loop.
\<close>

definition Render_animation ::
  "(nat \<Rightarrow> nat) \<Rightarrow> int \<Rightarrow> int \<Rightarrow> nat \<Rightarrow> fp \<Rightarrow> ClientUnit \<Rightarrow>
   (render_error + int \<times> ClientUnit) option" where
  "Render_animation rand kNumFacingDirections numFrames numVariants serverTime u =
     (if kNumFacingDirections = 0 then Some (Inl QuotientByZero)
      else
        (let framesPerDirection = cpp_div numFrames kNumFacingDirections;
             u1 = (if fp_less (lastAnimationStartTime u) (Finite 0)
                   then u\<lparr>lastAnimationStartTime := serverTime\<rparr> else u)
         in animation_loop rand numVariants framesPerDirection serverTime u1))"

text \<open>The unit after an iteration that does not \<open>break\<close>, named for the proofs.\<close>

definition loop_step :: "(nat \<Rightarrow> nat) \<Rightarrow> nat \<Rightarrow> int \<Rightarrow> fp \<Rightarrow> ClientUnit \<Rightarrow> ClientUnit" where
  "loop_step rand numVariants framesPerDirection serverTime u =
     (let u1 = u\<lparr>lastAnimationStartTime := next_start framesPerDirection serverTime u\<rparr>
      in if currentAnimationVariant u1 = 1 then u1\<lparr>currentAnimationVariant := 0\<rparr>
         else u1\<lparr>currentAnimationVariant := rand (randCalls u1) mod numVariants,
                 randCalls := Suc (randCalls u1)\<rparr>)"

text \<open>A run in which no ping response arrives: timer ticks only, each with its time and
  the transport's answer to the write of the probe.\<close>

definition tick_inputs :: "(TimePoint \<times> int) list \<Rightarrow> input list" where
  "tick_inputs ticks = map (\<lambda>tick. TimerTick (fst tick) (snd tick)) ticks"

text \<open>The connection-lost signal has been emitted once if the flag is set, and never otherwise.\<close>

definition lost_once :: "ServerConnection \<Rightarrow> bool" where
  "lost_once s \<longleftrightarrow>
     count_list (emitted s) ConnectionLost = (if connectionToServerLost s then 1 else 0)"

text \<open>The invariant of the sample window for a capacity.\<close>

definition window_ok :: "nat \<Rightarrow> ServerConnection \<Rightarrow> bool" where
  "window_ok capacity s \<longleftrightarrow>
     length (lastTimeOffsets s) \<le> capacity \<and> length (lastPings s) = length (lastTimeOffsets s)"

section \<open>Example states\<close>

definition example_connection :: "real list \<Rightarrow> real list \<Rightarrow> ServerConnection" where
  "example_connection pings offsets =
     \<lparr>socket = [], logged = [], emitted = [], unparsedReceivedBuffer = [],
      connectionToServerLost = False, connectionStartTime = 0,
      lastTimeOffsets = offsets, lastPings = pings, lastPingResponseTime = 0,
      sentPings = [], nextPingNumber = 0\<rparr>"

definition example_unit :: "fp \<Rightarrow> ClientUnit" where
  "example_unit start =
     \<lparr>direction = 3, currentAnimationVariant = 0, lastAnimationStartTime = start,
      randCalls = 0\<rparr>"

text \<open>The spec's name for \<open>sum / count\<close>, to compare the loop with.\<close>

definition arithmetic_mean :: "real list \<Rightarrow> real" where
  "arithmetic_mean xs = sum_list xs / real (length xs)"

section \<open>The estimator computes the plain means\<close>

lemma estimate_loop_sums:
  "i \<le> length offsets \<Longrightarrow> length pings = length offsets \<Longrightarrow>
   estimate_loop offsets pings i a b =
     Inr (a + sum_list (drop i offsets), b + sum_list (drop i pings))"
proof (induction offsets pings i a b rule: estimate_loop.induct)
  case (1 offsets pings i offsetSum pingSum)
  show ?case
  proof (cases "i < length offsets")
    case True
    then have ip: "i < length pings" using "1.prems" by simp
    have d1: "drop i offsets = offsets ! i # drop (Suc i) offsets"
      using True by (simp add: Cons_nth_drop_Suc)
    have d2: "drop i pings = pings ! i # drop (Suc i) pings"
      using ip by (simp add: Cons_nth_drop_Suc)
    have "estimate_loop offsets pings i offsetSum pingSum =
          estimate_loop offsets pings (Suc i) (offsetSum + offsets ! i) (pingSum + pings ! i)"
      using True ip by (subst estimate_loop.simps) simp
    also have "\<dots> = Inr (offsetSum + offsets ! i + sum_list (drop (Suc i) offsets),
                         pingSum + pings ! i + sum_list (drop (Suc i) pings))"
      using "1.IH" [OF True ip] True "1.prems" by simp
    finally show ?thesis by (simp add: d1 d2 add.assoc)
  next
    case False
    then have "i = length offsets" using "1.prems" by simp
    then show ?thesis using "1.prems" by (subst estimate_loop.simps) simp
  qed
qed

lemma estimate_nonempty:
  assumes "lastTimeOffsets s \<noteq> []" and "length (lastPings s) = length (lastTimeOffsets s)"
  shows "EstimateCurrentPingAndOffset s =
           Inr (arithmetic_mean (lastPings s), arithmetic_mean (lastTimeOffsets s))"
  using assms
  by (simp add: EstimateCurrentPingAndOffset_def estimate_loop_sums div_by_size_def
      arithmetic_mean_def)

lemma estimate_empty:
  "lastTimeOffsets s = [] \<Longrightarrow> EstimateCurrentPingAndOffset s = Inl DivisionByZero"
  by (simp add: EstimateCurrentPingAndOffset_def estimate_loop.simps div_by_size_def)

lemma displayed_nonempty:
  assumes "lastTimeOffsets s \<noteq> []" and "length (lastPings s) = length (lastTimeOffsets s)"
  shows "GetDisplayedServerTime s now =
           Inr (now - connectionStartTime s + arithmetic_mean (lastTimeOffsets s)
                - 0.5 * arithmetic_mean (lastPings s) - 0.010)"
  using assms by (simp add: GetDisplayedServerTime_def estimate_nonempty kSafetyMargin_def)

lemma scenario_three_round_trips:
  "GetDisplayedServerTime (example_connection [0.040, 0.060, 0.050] [2.000, 2.010, 1.995]) 10
     = Inr (359 / 30) \<and> \<bar>359 / 30 - 11.9667\<bar> < (0.0001 :: real)"
  by (simp add: displayed_nonempty example_connection_def arithmetic_mean_def)

text \<open>
  The formula subtracts half the filtered ping from a time in seconds, so it takes the
  entries of \<open>lastPings\<close> as seconds. With the same three round trips entered in
  milliseconds (the unit that section 3 of the spec gives for \<open>lastPings\<close>) the code
  returns another value.
\<close>

lemma scenario_pings_in_milliseconds:
  "GetDisplayedServerTime (example_connection [40, 60, 50] [2.000, 2.010, 1.995]) 10
     = Inr (- (1561 / 120))"
  by (simp add: displayed_nonempty example_connection_def arithmetic_mean_def)

section \<open>Claims about the estimator and the displayed server time\<close>

text \<open>
  C1. With an empty sample window (no round trip completed yet) the spec wants the
  estimator to report that no estimate is available and not to divide by zero. The code has
  no such case: with both vectors empty the loop body never runs and
  \<open>offsetSum / lastTimeOffsets.size()\<close> is a division by a size of zero, in
  \<open>EstimateCurrentPingAndOffset\<close> and so in \<open>GetDisplayedServerTime\<close>. The theorem
  evaluates both at a connection whose window is empty.
\<close>

theorem estimate_empty_window_divides_by_zero:
  "EstimateCurrentPingAndOffset (example_connection [] []) = Inl DivisionByZero \<and>
   GetDisplayedServerTime (example_connection [] []) 10 = Inl DivisionByZero"
  by (simp add: GetDisplayedServerTime_def estimate_empty example_connection_def)

text \<open>
  C2. For every state with a non-empty sample window (the two vectors of equal length, as
  the data model has them) the estimator returns a pair \<open>(filteredPing, filteredOffset)\<close>
  and \<open>GetDisplayedServerTime\<close> returns
  \<open>localElapsedSeconds + filteredOffset - 0.5 * filteredPing - 0.010\<close>, the safety margin
  being the constant of 10 ms. In particular, with a filtered ping of 50 ms and a filtered
  offset of 2.0017 s at 10 s of local elapsed time the result is 11.9667 s. All quantities
  of the formula are in seconds, as the constant \<open>kSafetyMargin = 0.010\<close> for 10 ms is: a
  filtered ping of 50 ms is the value 0.050.
\<close>

theorem displayed_server_time_formula:
  "lastTimeOffsets s \<noteq> [] \<Longrightarrow> length (lastPings s) = length (lastTimeOffsets s) \<Longrightarrow>
   (\<exists>p. EstimateCurrentPingAndOffset s = Inr p) \<and>
   (\<forall>filteredPing filteredOffset.
      EstimateCurrentPingAndOffset s = Inr (filteredPing, filteredOffset) \<longrightarrow>
      GetDisplayedServerTime s now =
        Inr ((now - connectionStartTime s) + filteredOffset - 0.5 * filteredPing - 0.010) \<and>
      (filteredPing = 0.050 \<and> filteredOffset = 2.0017 \<and> now - connectionStartTime s = 10
         \<longrightarrow> GetDisplayedServerTime s now = Inr 11.9667))"
  using displayed_nonempty [of s now] estimate_nonempty [of s] by auto

theorem displayed_server_time_formula_witness:
  "lastTimeOffsets (example_connection [0.040, 0.060, 0.050] [2.000, 2.010, 1.9951]) \<noteq> [] \<and>
   length (lastPings (example_connection [0.040, 0.060, 0.050] [2.000, 2.010, 1.9951])) =
     length (lastTimeOffsets (example_connection [0.040, 0.060, 0.050] [2.000, 2.010, 1.9951])) \<and>
   EstimateCurrentPingAndOffset (example_connection [0.040, 0.060, 0.050] [2.000, 2.010, 1.9951])
     = Inr (0.050, 2.0017) \<and>
   10 - connectionStartTime (example_connection [0.040, 0.060, 0.050] [2.000, 2.010, 1.9951]) = 10 \<and>
   GetDisplayedServerTime (example_connection [0.040, 0.060, 0.050] [2.000, 2.010, 1.9951]) 10
     = Inr 11.9667"
proof -
  let ?c = "example_connection [0.040, 0.060, 0.050] [2.000, 2.010, 1.9951]"
  have e: "EstimateCurrentPingAndOffset ?c = Inr (0.050, 2.0017)"
    by (simp add: estimate_nonempty example_connection_def arithmetic_mean_def)
  have n: "lastTimeOffsets ?c \<noteq> []" "length (lastPings ?c) = length (lastTimeOffsets ?c)"
    "10 - connectionStartTime ?c = 10"
    by (simp_all add: example_connection_def)
  have "GetDisplayedServerTime ?c 10 = Inr 11.9667"
    using displayed_server_time_formula [OF n(1) n(2), of 10] e n(3) by blast
  then show ?thesis using e n by simp
qed

text \<open>
  C3. For every non-empty sample window (the two vectors of equal length)
  \<open>EstimateCurrentPingAndOffset\<close> returns the arithmetic mean of all samples of
  \<open>lastPings\<close> and the arithmetic mean of all samples of \<open>lastTimeOffsets\<close>: every sample
  enters the sum, none is rejected.
\<close>

theorem estimate_is_arithmetic_mean:
  "lastTimeOffsets s \<noteq> [] \<Longrightarrow> length (lastPings s) = length (lastTimeOffsets s) \<Longrightarrow>
   EstimateCurrentPingAndOffset s =
     Inr (sum_list (lastPings s) / real (length (lastPings s)),
          sum_list (lastTimeOffsets s) / real (length (lastTimeOffsets s)))"
  using estimate_nonempty [of s] by (simp add: arithmetic_mean_def)

theorem estimate_is_arithmetic_mean_witness:
  "lastTimeOffsets (example_connection [0.040, 0.060, 0.050] [2.000, 2.010, 1.995]) \<noteq> [] \<and>
   length (lastPings (example_connection [0.040, 0.060, 0.050] [2.000, 2.010, 1.995])) =
     length (lastTimeOffsets (example_connection [0.040, 0.060, 0.050] [2.000, 2.010, 1.995])) \<and>
   EstimateCurrentPingAndOffset (example_connection [0.040, 0.060, 0.050] [2.000, 2.010, 1.995]) =
     Inr (0.050, 6.005 / 3)"
  using estimate_is_arithmetic_mean
    [of "example_connection [0.040, 0.060, 0.050] [2.000, 2.010, 1.995]"]
  by (simp add: example_connection_def)

text \<open>
  C8. With a fixed non-empty sample window \<open>GetDisplayedServerTime\<close> is monotonically
  non-decreasing in the time of the query: for two instants \<open>t1 \<le> t2\<close> of the local clock
  both queries return a value and the one at \<open>t2\<close> is at least the one at \<open>t1\<close>.
\<close>

theorem displayed_server_time_monotone:
  "lastTimeOffsets s \<noteq> [] \<Longrightarrow> length (lastPings s) = length (lastTimeOffsets s) \<Longrightarrow>
   t1 \<le> t2 \<Longrightarrow>
   (\<exists>v1 v2. GetDisplayedServerTime s t1 = Inr v1 \<and> GetDisplayedServerTime s t2 = Inr v2 \<and>
      v1 \<le> v2)"
  by (simp add: displayed_nonempty)

theorem displayed_server_time_monotone_witness:
  "lastTimeOffsets (example_connection [0.040, 0.060] [2.000, 2.010]) \<noteq> [] \<and>
   length (lastPings (example_connection [0.040, 0.060] [2.000, 2.010])) =
     length (lastTimeOffsets (example_connection [0.040, 0.060] [2.000, 2.010])) \<and>
   (10 :: real) \<le> 11 \<and>
   (\<exists>v1 v2. GetDisplayedServerTime (example_connection [0.040, 0.060] [2.000, 2.010]) 10 = Inr v1 \<and>
      GetDisplayedServerTime (example_connection [0.040, 0.060] [2.000, 2.010]) 11 = Inr v2 \<and>
      v1 \<le> v2)"
  using displayed_server_time_monotone [of "example_connection [0.040, 0.060] [2.000, 2.010]" 10 11]
  by (simp add: example_connection_def)

section \<open>Claim about Write\<close>

text \<open>
  C9. For every message and every state, when the transport accepts fewer bytes than the
  message has (a short write), \<open>Write\<close> logs one error and returns: the socket sees exactly
  one \<open>write\<close> of the message (no retry) followed by the \<open>flush\<close>, whatever the count
  returned was, no signal is emitted, and the function has no outcome other than the new
  state.
\<close>

theorem write_short_write:
  "(result < int (length message) \<longrightarrow>
      logged (Write result message s) =
        logged s @ [LogError ''Error sending message'' result (length message)]) \<and>
   socket (Write result message s) = socket s @ [SocketWrite message result, SocketFlush] \<and>
   emitted (Write result message s) = emitted s"
  by (simp add: Write_def Let_def)

theorem write_short_write_witness:
  "(2 :: int) < int (length [1, 2, 3 :: byte]) \<and>
   logged (Write 2 [1, 2, 3] (example_connection [] [])) =
     [LogError ''Error sending message'' 2 3] \<and>
   socket (Write 2 [1, 2, 3] (example_connection [] [])) = [SocketWrite [1, 2, 3] 2, SocketFlush]"
  using write_short_write [of 2 "[1, 2, 3]" "example_connection [] []"]
  by (simp add: example_connection_def)

section \<open>Framing: parsing does not depend on the chunks\<close>

lemma length_le_encode [simp]: "length (le_encode w n) = w"
  by (induction w arbitrary: n) auto

lemma le_decode_encode_2: "n < 65536 \<Longrightarrow> le_decode (le_encode 2 n) = n"
proof -
  assume n: "n < 65536"
  have d: "n div 256 < 256" using n by simp
  have e: "le_encode 2 n = [word_of_nat (n mod 256), word_of_nat (n div 256 mod 256)]"
    by (simp add: numeral_2_eq_2)
  have "unat (word_of_nat (n mod 256) :: byte) = n mod 256"
    by (simp add: unat_of_nat)
  moreover have "unat (word_of_nat (n div 256 mod 256) :: byte) = n div 256"
    using d by (simp add: unat_of_nat)
  ultimately show ?thesis unfolding e by simp
qed

lemma parse_messages_short:
  "length buf < headerSize tagWidth \<Longrightarrow> parse_messages tagWidth buf = ([], buf)"
  by (subst parse_messages.simps) simp

lemma parse_messages_step:
  "\<not> length buf < headerSize tagWidth \<Longrightarrow>
   le_decode (take 2 (drop tagWidth buf)) = len \<Longrightarrow>
   \<not> length buf < headerSize tagWidth + len \<Longrightarrow>
   parse_messages tagWidth buf =
     (let (events, rest) = parse_messages tagWidth (drop (headerSize tagWidth + len) buf)
      in (NewMessage (take len (drop (headerSize tagWidth) buf)) (take tagWidth buf) len # events,
          rest))"
  by (subst parse_messages.simps) (simp add: Let_def)

lemma parse_messages_append:
  "parse_messages tagWidth (buf @ later) =
     (let (e1, r1) = parse_messages tagWidth buf;
          (e2, r2) = parse_messages tagWidth (r1 @ later)
      in (e1 @ e2, r2))"
proof (induction tagWidth buf rule: parse_messages.induct)
  case (1 tagWidth buf)
  let ?H = "headerSize tagWidth"
  let ?len = "le_decode (take 2 (drop tagWidth buf))"
  show ?case
  proof (cases "length buf < ?H")
    case True
    then show ?thesis by (simp add: parse_messages_short split: prod.splits)
  next
    case False
    then have hdr: "take tagWidth (buf @ later) = take tagWidth buf"
      "take 2 (drop tagWidth (buf @ later)) = take 2 (drop tagWidth buf)"
      by (simp_all add: headerSize_def)
    show ?thesis
    proof (cases "length buf < ?H + ?len")
      case True
      then have "parse_messages tagWidth buf = ([], buf)"
        using False by (subst parse_messages.simps) (simp add: Let_def)
      then show ?thesis by (simp split: prod.splits)
    next
      case long: False
      let ?rest = "drop (?H + ?len) buf"
      obtain ev rs where r: "parse_messages tagWidth ?rest = (ev, rs)"
        by (cases "parse_messages tagWidth ?rest")
      have p1: "parse_messages tagWidth buf =
                  (NewMessage (take ?len (drop ?H buf)) (take tagWidth buf) ?len # ev, rs)"
        using False long r by (subst parse_messages.simps) (simp add: Let_def)
      have IH: "parse_messages tagWidth (?rest @ later) =
                  (let (e1, r1) = parse_messages tagWidth ?rest;
                       (e2, r2) = parse_messages tagWidth (r1 @ later)
                   in (e1 @ e2, r2))"
        using "1.IH" [OF False refl refl _ refl] long by simp
      have pay: "take ?len (drop ?H (buf @ later)) = take ?len (drop ?H buf)"
        using long by simp
      have dr: "drop (?H + ?len) (buf @ later) = ?rest @ later"
        using long by simp
      have p2: "parse_messages tagWidth (buf @ later) =
                  (let (events, rest) = parse_messages tagWidth (?rest @ later)
                   in (NewMessage (take ?len (drop ?H buf)) (take tagWidth buf) ?len # events,
                       rest))"
      proof -
        have a2: "\<not> length (buf @ later) < ?H" using False by simp
        have c2: "le_decode (take 2 (drop tagWidth (buf @ later))) = ?len"
          by (simp only: hdr)
        have d2: "\<not> length (buf @ later) < ?H + ?len" using long by simp
        show ?thesis
          using parse_messages_step [OF a2 c2 d2] by (simp only: hdr pay dr)
      qed
      show ?thesis
        unfolding p2 IH p1 r by (simp split: prod.splits)
    qed
  qed
qed

lemma parse_messages_encoded:
  "well_formed_message tagWidth m \<Longrightarrow>
   parse_messages tagWidth (encode_message m @ later) =
     (let (events, rest) = parse_messages tagWidth later in (message_event m # events, rest))"
proof -
  assume wf: "well_formed_message tagWidth m"
  obtain tag payload where m: "m = (tag, payload)" by (cases m)
  have lt: "length tag = tagWidth" and lp: "length payload < 65536"
    using wf by (simp_all add: well_formed_message_def m)
  let ?buf = "encode_message m @ later"
  have buf: "?buf = tag @ le_encode 2 (length payload) @ payload @ later"
    by (simp add: encode_message_def m)
  have a: "\<not> length ?buf < headerSize tagWidth"
    by (simp add: buf headerSize_def lt)
  have b: "take tagWidth ?buf = tag" by (simp add: buf lt)
  have c: "le_decode (take 2 (drop tagWidth ?buf)) = length payload"
    using le_decode_encode_2 [OF lp] by (simp add: buf lt)
  have d: "\<not> length ?buf < headerSize tagWidth + length payload"
    by (simp add: buf headerSize_def lt)
  have e: "take (length payload) (drop (headerSize tagWidth) ?buf) = payload"
    by (simp add: buf headerSize_def lt)
  have f: "drop (headerSize tagWidth + length payload) ?buf = later"
    by (simp add: buf headerSize_def lt)
  show ?thesis
    unfolding parse_messages_step [OF a c d] b e f by (simp add: message_event_def m)
qed

lemma parse_messages_stream:
  "\<forall>m \<in> set msgs. well_formed_message tagWidth m \<Longrightarrow>
   parse_messages tagWidth (concat (map encode_message msgs)) = (map message_event msgs, [])"
proof (induction msgs)
  case Nil
  then show ?case by (simp add: parse_messages_short headerSize_def)
next
  case (Cons m msgs)
  then show ?case by (simp add: parse_messages_encoded)
qed

lemma receive_chunks_parse:
  "unparsedReceivedBuffer s = [] \<Longrightarrow>
   emitted (receive_chunks tagWidth s chunks) =
     emitted s @ fst (parse_messages tagWidth (concat chunks)) \<and>
   unparsedReceivedBuffer (receive_chunks tagWidth s chunks) =
     snd (parse_messages tagWidth (concat chunks))"
proof (induction chunks rule: rev_induct)
  case Nil
  then show ?case by (simp add: receive_chunks_def parse_messages_short headerSize_def)
next
  case (snoc c cs)
  let ?s1 = "receive_chunks tagWidth s cs"
  obtain e1 r1 where p1: "parse_messages tagWidth (concat cs) = (e1, r1)"
    by (cases "parse_messages tagWidth (concat cs)")
  obtain e2 r2 where p2: "parse_messages tagWidth (r1 @ c) = (e2, r2)"
    by (cases "parse_messages tagWidth (r1 @ c)")
  have s1: "emitted ?s1 = emitted s @ e1" "unparsedReceivedBuffer ?s1 = r1"
    using snoc by (simp_all add: p1)
  have all: "parse_messages tagWidth (concat cs @ c) = (e1 @ e2, r2)"
    by (subst parse_messages_append) (simp add: p1 p2)
  have "receive_chunks tagWidth s (cs @ [c]) = receive_chunk tagWidth ?s1 c"
    by (simp add: receive_chunks_def)
  then show ?case
    by (simp add: receive_chunk_def TryParseMessages_def s1 p2 all)
qed

text \<open>
  C4. For every sequence of chunks fed to the framer (starting with an empty buffer) whose
  concatenation is the encoding of \<open>N\<close> complete messages, the events emitted are exactly
  the \<open>N\<close> message events, each with the type, length and payload of its message and in
  the order of the stream, and nothing stays in the buffer. The events depend on the
  concatenation only: feeding the bytes one at a time and all at once gives the same
  events.
\<close>

theorem framing_independent_of_chunking:
  "unparsedReceivedBuffer s = [] \<Longrightarrow>
   (\<forall>m \<in> set msgs. well_formed_message tagWidth m) \<Longrightarrow>
   concat chunks = concat (map encode_message msgs) \<Longrightarrow>
   emitted (receive_chunks tagWidth s chunks) = emitted s @ map message_event msgs \<and>
   unparsedReceivedBuffer (receive_chunks tagWidth s chunks) = [] \<and>
   length (emitted (receive_chunks tagWidth s chunks)) = length (emitted s) + length msgs \<and>
   emitted (receive_chunks tagWidth s (map (\<lambda>b. [b]) (concat chunks))) =
     emitted (receive_chunks tagWidth s [concat chunks])"
  using receive_chunks_parse [of s tagWidth chunks]
    receive_chunks_parse [of s tagWidth "map (\<lambda>b. [b]) (concat chunks)"]
    receive_chunks_parse [of s tagWidth "[concat chunks]"]
    parse_messages_stream [of msgs tagWidth]
  by (simp add: concat_map_singleton)

theorem framing_independent_of_chunking_witness:
  "unparsedReceivedBuffer (connected 0) = [] \<and>
   well_formed_message 2 ([1, 0], [10, 11, 12, 13, 14]) \<and>
   concat [[1, 0, 5], [0, 10, 11], [12, 13, 14 :: byte]] =
     concat (map encode_message [([1, 0], [10, 11, 12, 13, 14])]) \<and>
   emitted (receive_chunks 2 (connected 0) [[1, 0, 5], [0, 10, 11], [12, 13, 14]]) =
     [NewMessage [10, 11, 12, 13, 14] [1, 0] 5] \<and>
   unparsedReceivedBuffer (receive_chunks 2 (connected 0) [[1, 0, 5], [0, 10, 11], [12, 13, 14]])
     = []"
proof -
  have b: "unparsedReceivedBuffer (connected 0) = []" by (simp add: connected_def)
  have w: "\<forall>m \<in> set [([1, 0], [10, 11, 12, 13, 14 :: byte])]. well_formed_message 2 m"
    by (simp add: well_formed_message_def)
  have c: "concat [[1, 0, 5], [0, 10, 11], [12, 13, 14 :: byte]] =
             concat (map encode_message [([1, 0], [10, 11, 12, 13, 14])])"
    by (simp add: encode_message_def numeral_2_eq_2)
  show ?thesis
    using framing_independent_of_chunking [OF b w c] b w c
    by (simp add: message_event_def connected_def)
qed

lemma scenario_nine_bytes_in_three_chunks:
  "emitted (receive_chunks 2 (connected 0) [[1, 0, 5]]) = [] \<and>
   emitted (receive_chunks 2 (connected 0) [[1, 0, 5], [0, 10, 11]]) = [] \<and>
   emitted (receive_chunks 2 (connected 0) [[1, 0, 5], [0, 10, 11], [12, 13, 14]]) =
     [NewMessage [10, 11, 12, 13, 14] [1, 0] 5]"
  by (simp add: receive_chunks_def receive_chunk_def TryParseMessages_def connected_def
      parse_messages.simps headerSize_def Let_def)

section \<open>The outstanding pings after a response\<close>

lemma add_sample_other_fields [simp]:
  "sentPings (add_sample capacity p off s) = sentPings s"
  "emitted (add_sample capacity p off s) = emitted s"
  "connectionToServerLost (add_sample capacity p off s) = connectionToServerLost s"
  "lastPingResponseTime (add_sample capacity p off s) = lastPingResponseTime s"
  "connectionStartTime (add_sample capacity p off s) = connectionStartTime s"
  by (simp_all add: add_sample_def Let_def)

lemma find_matching_ping:
  "number \<in> fst ` set pings \<Longrightarrow>
   \<exists>sentAt. find (\<lambda>item. fst item = number) pings = Some (number, sentAt)"
proof (cases "find (\<lambda>item. fst item = number) pings")
  case None
  assume "number \<in> fst ` set pings"
  then obtain r where "r \<in> set pings" "fst r = number" by blast
  moreover have "\<not> (\<exists>x. x \<in> set pings \<and> fst x = number)"
    using None by (simp add: find_None_iff)
  ultimately show ?thesis by blast
next
  case (Some item)
  then have "fst item = number" by (auto simp: find_Some_iff)
  then have "item = (number, snd item)" by (cases item) simp
  then show ?thesis using Some by metis
qed

lemma handle_found:
  "find (\<lambda>item. fst item = number) (sentPings s) = Some item \<Longrightarrow>
   sentPings (HandlePingResponseMessage capacity number serverTime receiveTime s) =
     filter (\<lambda>r. \<not> fst r \<le> fst item) (sentPings s)"
  unfolding HandlePingResponseMessage_def Let_def
  by simp

lemma handle_response_sentPings:
  "number \<in> fst ` set (sentPings s) \<Longrightarrow>
   sentPings (HandlePingResponseMessage capacity number serverTime receiveTime s) =
     filter (\<lambda>r. number < fst r) (sentPings s)"
proof -
  assume n: "number \<in> fst ` set (sentPings s)"
  from find_matching_ping [OF n] obtain sentAt where
    f: "find (\<lambda>item. fst item = number) (sentPings s) = Some (number, sentAt)" ..
  have "filter (\<lambda>r. \<not> fst r \<le> fst (number, sentAt)) (sentPings s) =
        filter (\<lambda>r. number < fst r) (sentPings s)"
    by (rule filter_cong) (simp_all add: not_le)
  then show ?thesis using handle_found [OF f] by simp
qed

text \<open>
  C5. For every sequence of outstanding pings and every ping response whose sequence number
  \<open>k\<close> matches an outstanding record, handling the response leaves exactly the records
  with a sequence number above \<open>k\<close>, unchanged and in their order: every record with a
  number at most \<open>k\<close> is gone and every record with a number above \<open>k\<close> is still there.
\<close>

theorem ping_response_prunes_outstanding:
  "k \<in> fst ` set (sentPings s) \<Longrightarrow>
   sentPings (HandlePingResponseMessage capacity k serverTime receiveTime s) =
     filter (\<lambda>r. k < fst r) (sentPings s) \<and>
   (\<forall>r \<in> set (sentPings s). fst r \<le> k \<longrightarrow>
      r \<notin> set (sentPings (HandlePingResponseMessage capacity k serverTime receiveTime s))) \<and>
   (\<forall>r \<in> set (sentPings s). k < fst r \<longrightarrow>
      r \<in> set (sentPings (HandlePingResponseMessage capacity k serverTime receiveTime s)))"
proof -
  assume k: "k \<in> fst ` set (sentPings s)"
  let ?s' = "HandlePingResponseMessage capacity k serverTime receiveTime s"
  have e: "sentPings ?s' = filter (\<lambda>r. k < fst r) (sentPings s)"
    by (rule handle_response_sentPings [OF k])
  have "\<forall>r \<in> set (sentPings s). fst r \<le> k \<longrightarrow> r \<notin> set (sentPings ?s')"
    unfolding e by (simp add: not_less)
  moreover have "\<forall>r \<in> set (sentPings s). k < fst r \<longrightarrow> r \<in> set (sentPings ?s')"
    unfolding e by simp
  ultimately show ?thesis using e by blast
qed

theorem ping_response_prunes_outstanding_witness:
  "(2 :: 64 word) \<in> fst ` set (sentPings ((connected 0)\<lparr>sentPings := [(1, 1), (2, 2), (3, 3), (4, 4)]\<rparr>)) \<and>
   sentPings (HandlePingResponseMessage 5 2 7.5 2.04
       ((connected 0)\<lparr>sentPings := [(1, 1), (2, 2), (3, 3), (4, 4)]\<rparr>)) = [(3, 3), (4, 4)]"
proof -
  let ?s = "(connected 0)\<lparr>sentPings := [(1, 1), (2, 2), (3, 3), (4, 4)]\<rparr>"
  have h: "(2 :: 64 word) \<in> fst ` set (sentPings ?s)" by simp
  have f: "filter (\<lambda>r. 2 < fst r) (sentPings ?s) = [(3, 3), (4, 4)]" by simp
  show ?thesis
    using ping_response_prunes_outstanding [OF h, of 5 "7.5" "2.04", THEN conjunct1] h
    unfolding f by blast
qed

section \<open>The sample window stays within its capacity\<close>

lemma add_sample_windows:
  "lastTimeOffsets (add_sample capacity p off s) =
     (if length (lastTimeOffsets s) = capacity then tl (lastTimeOffsets s)
      else lastTimeOffsets s) @ [off]"
  "lastPings (add_sample capacity p off s) =
     (if length (lastTimeOffsets s) = capacity then tl (lastPings s) else lastPings s) @ [p]"
  by (simp_all add: add_sample_def Let_def)

lemma add_sample_window_ok:
  "0 < capacity \<Longrightarrow> window_ok capacity s \<Longrightarrow> window_ok capacity (add_sample capacity p off s)"
  by (auto simp: window_ok_def add_sample_windows)

lemma Write_windows [simp]:
  "lastTimeOffsets (Write result message s) = lastTimeOffsets s"
  "lastPings (Write result message s) = lastPings s"
  by (simp_all add: Write_def Let_def)

lemma step_window_ok:
  "0 < windowCapacity cfg \<Longrightarrow> window_ok (windowCapacity cfg) s \<Longrightarrow>
   window_ok (windowCapacity cfg) (step cfg s i)"
proof (cases i)
  case (TimerTick now result)
  assume "window_ok (windowCapacity cfg) s"
  then show ?thesis
    by (simp add: TimerTick PingAndCheckConnection_def window_ok_def Let_def)
next
  case (PingResponse number serverTime receiveTime)
  assume c: "0 < windowCapacity cfg" and w: "window_ok (windowCapacity cfg) s"
  show ?thesis
  proof (cases "find (\<lambda>item. fst item = number) (sentPings s)")
    case None
    then show ?thesis using w by (simp add: PingResponse HandlePingResponseMessage_def)
  next
    case (Some item)
    let ?s1 = "s\<lparr>sentPings := filter (\<lambda>r. \<not> fst r \<le> fst item) (sentPings s),
                  lastPingResponseTime := receiveTime\<rparr>"
    have "window_ok (windowCapacity cfg) ?s1" using w by (simp add: window_ok_def)
    from add_sample_window_ok [OF c this]
    show ?thesis
      by (simp add: PingResponse HandlePingResponseMessage_def Some Let_def window_ok_def)
  qed
qed

lemma run_window_ok:
  "0 < windowCapacity cfg \<Longrightarrow> window_ok (windowCapacity cfg) s \<Longrightarrow>
   window_ok (windowCapacity cfg) (run cfg s inputs)"
  unfolding run_def
  by (induction inputs arbitrary: s) (simp_all add: step_window_ok)

lemma add_samples_snoc:
  "add_samples capacity s (samples @ [x]) =
     add_sample capacity (fst x) (snd x) (add_samples capacity s samples)"
  by (simp add: add_samples_def)

lemma add_samples_windows:
  "0 < capacity \<Longrightarrow> lastTimeOffsets s = [] \<Longrightarrow> lastPings s = [] \<Longrightarrow>
   lastPings (add_samples capacity s samples) =
     map fst (drop (length samples - capacity) samples) \<and>
   lastTimeOffsets (add_samples capacity s samples) =
     map snd (drop (length samples - capacity) samples)"
proof (induction samples rule: rev_induct)
  case Nil
  then show ?case by (simp add: add_samples_def)
next
  case (snoc x xs)
  let ?w = "drop (length xs - capacity) xs"
  have IH: "lastPings (add_samples capacity s xs) = map fst ?w"
    "lastTimeOffsets (add_samples capacity s xs) = map snd ?w"
    using snoc by simp_all
  show ?case
  proof (cases "capacity \<le> length xs")
    case True
    then have full: "length (map snd ?w) = capacity" by simp
    have d: "drop (Suc (length xs) - capacity) xs = tl ?w"
      using True snoc.prems(1) by (simp add: drop_Suc tl_drop Suc_diff_le)
    show ?thesis
      using True full snoc.prems(1)
      by (simp add: add_samples_snoc add_sample_windows IH d map_tl)
  next
    case False
    then show ?thesis
      by (simp add: add_samples_snoc add_sample_windows IH)
  qed
qed

text \<open>
  C7. With a capacity of at least one, the sample window never exceeds the capacity in any
  run of ticks and ping responses after the connect, and the two vectors keep the same
  length; after \<open>capacity + 1\<close> insertions into the empty window the window holds the last
  \<open>capacity\<close> samples, so the first one is gone and the estimate is the mean of the others.
\<close>

theorem sample_window_bounded:
  "0 < windowCapacity cfg \<Longrightarrow>
   length (lastTimeOffsets (run cfg (connected t0) inputs)) \<le> windowCapacity cfg \<and>
   length (lastPings (run cfg (connected t0) inputs)) \<le> windowCapacity cfg \<and>
   (length samples = windowCapacity cfg + 1 \<longrightarrow>
      lastPings (add_samples (windowCapacity cfg) (connected t0) samples) = map fst (tl samples) \<and>
      lastTimeOffsets (add_samples (windowCapacity cfg) (connected t0) samples)
        = map snd (tl samples) \<and>
      EstimateCurrentPingAndOffset (add_samples (windowCapacity cfg) (connected t0) samples) =
        Inr (arithmetic_mean (map fst (tl samples)), arithmetic_mean (map snd (tl samples))))"
proof -
  assume c: "0 < windowCapacity cfg"
  have "window_ok (windowCapacity cfg) (connected t0)"
    by (simp add: window_ok_def connected_def)
  from run_window_ok [OF c this, of inputs]
  have a: "length (lastTimeOffsets (run cfg (connected t0) inputs)) \<le> windowCapacity cfg"
    "length (lastPings (run cfg (connected t0) inputs)) \<le> windowCapacity cfg"
    by (simp_all add: window_ok_def)
  have b: "lastPings (add_samples (windowCapacity cfg) (connected t0) samples) = map fst (tl samples) \<and>
      lastTimeOffsets (add_samples (windowCapacity cfg) (connected t0) samples)
        = map snd (tl samples) \<and>
      EstimateCurrentPingAndOffset (add_samples (windowCapacity cfg) (connected t0) samples) =
        Inr (arithmetic_mean (map fst (tl samples)), arithmetic_mean (map snd (tl samples)))"
    if l: "length samples = windowCapacity cfg + 1"
  proof -
    let ?s = "add_samples (windowCapacity cfg) (connected t0) samples"
    have w: "lastPings ?s = map fst (tl samples)" "lastTimeOffsets ?s = map snd (tl samples)"
      using add_samples_windows [OF c, of "connected t0" samples] l
      by (simp_all add: connected_def drop_Suc)
    have ne: "lastTimeOffsets ?s \<noteq> []" using w l c by (cases samples) auto
    have eq: "length (lastPings ?s) = length (lastTimeOffsets ?s)" using w by simp
    show ?thesis using estimate_nonempty [OF ne eq] w by simp
  qed
  show ?thesis using a b by blast
qed

theorem sample_window_bounded_witness:
  "0 < windowCapacity \<lparr>timeoutSeconds = 5, windowCapacity = 2, probeMessage = (\<lambda>n t. [])\<rparr> \<and>
   length [(40, 2.000), (60, 2.010), (50, 1.995 :: real)] =
     windowCapacity \<lparr>timeoutSeconds = 5, windowCapacity = 2, probeMessage = (\<lambda>n t. [])\<rparr> + 1 \<and>
   lastPings (add_samples 2 (connected 0) [(40, 2.000), (60, 2.010), (50, 1.995)]) = [60, 50] \<and>
   lastTimeOffsets (add_samples 2 (connected 0) [(40, 2.000), (60, 2.010), (50, 1.995)])
     = [2.010, 1.995] \<and>
   EstimateCurrentPingAndOffset (add_samples 2 (connected 0) [(40, 2.000), (60, 2.010), (50, 1.995)])
     = Inr (55, 2.0025) \<and>
   length (lastTimeOffsets
     (run \<lparr>timeoutSeconds = 5, windowCapacity = 2, probeMessage = (\<lambda>n t. [])\<rparr> (connected 0)
        [TimerTick 1 0, PingResponse 0 3 1.04, TimerTick 2 0, PingResponse 1 4 2.06,
         TimerTick 3 0, PingResponse 2 5 3.05])) \<le> 2"
  using sample_window_bounded
    [of "\<lparr>timeoutSeconds = 5, windowCapacity = 2, probeMessage = (\<lambda>n t. [])\<rparr>"
        0 "[TimerTick 1 0, PingResponse 0 3 1.04, TimerTick 2 0, PingResponse 1 4 2.06,
            TimerTick 3 0, PingResponse 2 5 3.05]"
        "[(40, 2.000), (60, 2.010), (50, 1.995)]"]
  by (simp add: arithmetic_mean_def)

section \<open>Losing the connection\<close>

lemma Write_other_fields [simp]:
  "emitted (Write result message s) = emitted s"
  "connectionToServerLost (Write result message s) = connectionToServerLost s"
  "lastPingResponseTime (Write result message s) = lastPingResponseTime s"
  "sentPings (Write result message s) = sentPings s"
  "nextPingNumber (Write result message s) = nextPingNumber s"
  by (simp_all add: Write_def Let_def)

lemma tick_fields:
  "connectionToServerLost (PingAndCheckConnection timeout probe now result s) =
     (connectionToServerLost s \<or> timeout < now - lastPingResponseTime s)"
  "emitted (PingAndCheckConnection timeout probe now result s) =
     (if timeout < now - lastPingResponseTime s \<and> \<not> connectionToServerLost s
      then emitted s @ [ConnectionLost] else emitted s)"
  "lastPingResponseTime (PingAndCheckConnection timeout probe now result s) =
     lastPingResponseTime s"
  by (simp_all add: PingAndCheckConnection_def Let_def)

lemma response_lost_and_events:
  "connectionToServerLost (HandlePingResponseMessage capacity number serverTime receiveTime s) =
     connectionToServerLost s \<and>
   count_list (emitted (HandlePingResponseMessage capacity number serverTime receiveTime s))
     ConnectionLost = count_list (emitted s) ConnectionLost"
  unfolding HandlePingResponseMessage_def Let_def
  by (simp split: option.split)

lemma step_lost_monotone:
  "connectionToServerLost s \<Longrightarrow> connectionToServerLost (step cfg s i)"
proof (cases i)
  case (TimerTick now result)
  assume "connectionToServerLost s"
  then show ?thesis by (simp add: TimerTick tick_fields)
next
  case (PingResponse number serverTime receiveTime)
  assume "connectionToServerLost s"
  then show ?thesis by (simp add: PingResponse response_lost_and_events)
qed

lemma run_lost_monotone:
  "connectionToServerLost s \<Longrightarrow> connectionToServerLost (run cfg s inputs)"
  unfolding run_def
  by (induction inputs arbitrary: s) (simp_all add: step_lost_monotone)

lemma step_lost_once: "lost_once s \<Longrightarrow> lost_once (step cfg s i)"
proof (cases i)
  case (TimerTick now result)
  assume "lost_once s"
  then show ?thesis by (simp add: TimerTick tick_fields lost_once_def)
next
  case (PingResponse number serverTime receiveTime)
  assume "lost_once s"
  then show ?thesis by (simp add: PingResponse response_lost_and_events lost_once_def)
qed

lemma run_lost_once: "lost_once s \<Longrightarrow> lost_once (run cfg s inputs)"
  unfolding run_def
  by (induction inputs arbitrary: s) (simp_all add: step_lost_once)

lemma ticks_only_lose:
  "lastPingResponseTime s = t0 \<Longrightarrow>
   connectionToServerLost s \<or> (\<exists>tick \<in> set ticks. timeoutSeconds cfg < fst tick - t0) \<Longrightarrow>
   connectionToServerLost (run cfg s (tick_inputs ticks))"
proof (induction ticks arbitrary: s)
  case Nil
  then show ?case by (simp add: run_def tick_inputs_def)
next
  case (Cons tick ticks)
  let ?s' = "step cfg s (TimerTick (fst tick) (snd tick))"
  have r: "run cfg s (tick_inputs (tick # ticks)) = run cfg ?s' (tick_inputs ticks)"
    by (simp add: run_def tick_inputs_def)
  have c: "lastPingResponseTime ?s' = t0 \<and>
           (connectionToServerLost s \<or> timeoutSeconds cfg < fst tick - t0
              \<longrightarrow> connectionToServerLost ?s')"
    using Cons.prems(1) by (simp add: tick_fields)
  have "connectionToServerLost ?s' \<or> (\<exists>tick \<in> set ticks. timeoutSeconds cfg < fst tick - t0)"
    using Cons.prems(2) c by auto
  with c show ?case unfolding r by (intro Cons.IH) simp_all
qed

text \<open>
  C6. If no ping response arrives and a timer tick comes later than the timeout after the
  connect, then \<open>ConnectionToServerLost()\<close> is true afterwards and the \<open>ConnectionLost\<close>
  signal has been emitted exactly once, however many ticks follow. In every run of ticks
  and ping responses after the connect the signal is emitted once if the flag is set and
  not at all otherwise, and a flag that is set stays set.
\<close>

theorem connection_lost_once:
  "((\<exists>tick \<in> set ticks. timeoutSeconds cfg < fst tick - t0) \<longrightarrow>
      ConnectionToServerLost (run cfg (connected t0) (tick_inputs ticks)) \<and>
      count_list (emitted (run cfg (connected t0) (tick_inputs ticks))) ConnectionLost = 1) \<and>
   count_list (emitted (run cfg (connected t0) inputs)) ConnectionLost =
     (if ConnectionToServerLost (run cfg (connected t0) inputs) then 1 else 0) \<and>
   (ConnectionToServerLost s \<longrightarrow> ConnectionToServerLost (run cfg s inputs))"
proof -
  have o: "lost_once (connected t0)" by (simp add: lost_once_def connected_def)
  have l: "lastPingResponseTime (connected t0) = t0" by (simp add: connected_def)
  have a: "ConnectionToServerLost (run cfg (connected t0) (tick_inputs ticks)) \<and>
      count_list (emitted (run cfg (connected t0) (tick_inputs ticks))) ConnectionLost = 1"
    if h: "\<exists>tick \<in> set ticks. timeoutSeconds cfg < fst tick - t0"
    using ticks_only_lose [OF l, of ticks cfg] h run_lost_once [OF o, of cfg "tick_inputs ticks"]
    by (simp add: ConnectionToServerLost_def lost_once_def)
  have b: "count_list (emitted (run cfg (connected t0) inputs)) ConnectionLost =
     (if ConnectionToServerLost (run cfg (connected t0) inputs) then 1 else 0)"
    using run_lost_once [OF o, of cfg inputs]
    by (simp add: ConnectionToServerLost_def lost_once_def)
  have c: "ConnectionToServerLost s \<longrightarrow> ConnectionToServerLost (run cfg s inputs)"
    by (simp add: ConnectionToServerLost_def run_lost_monotone)
  show ?thesis using a b c by simp
qed

theorem connection_lost_once_witness:
  "timeoutSeconds \<lparr>timeoutSeconds = 5, windowCapacity = 3, probeMessage = (\<lambda>n t. [])\<rparr>
     < fst (6 :: real, 0 :: int) - 0 \<and>
   ConnectionToServerLost
     (run \<lparr>timeoutSeconds = 5, windowCapacity = 3, probeMessage = (\<lambda>n t. [])\<rparr> (connected 0)
        (tick_inputs [(1, 0), (2, 0), (6, 0), (7, 0), (8, 0)])) \<and>
   emitted
     (run \<lparr>timeoutSeconds = 5, windowCapacity = 3, probeMessage = (\<lambda>n t. [])\<rparr> (connected 0)
        (tick_inputs [(1, 0), (2, 0), (6, 0), (7, 0), (8, 0)])) = [ConnectionLost] \<and>
   ConnectionToServerLost
     (run \<lparr>timeoutSeconds = 5, windowCapacity = 3, probeMessage = (\<lambda>n t. [])\<rparr>
        (run \<lparr>timeoutSeconds = 5, windowCapacity = 3, probeMessage = (\<lambda>n t. [])\<rparr> (connected 0)
           (tick_inputs [(1, 0), (2, 0), (6, 0)]))
        [PingResponse 1 9 6.5, TimerTick 7 0])"
proof -
  let ?cfg = "\<lparr>timeoutSeconds = 5, windowCapacity = 3, probeMessage = (\<lambda>n t. [])\<rparr>"
  let ?ticks = "[(1, 0), (2, 0), (6, 0), (7, 0), (8, 0)] :: (real \<times> int) list"
  let ?s = "run ?cfg (connected 0) (tick_inputs [(1, 0), (2, 0), (6, 0)])"
  have h: "\<exists>tick \<in> set ?ticks. timeoutSeconds ?cfg < fst tick - 0" by simp
  have e: "emitted (run ?cfg (connected 0) (tick_inputs ?ticks)) = [ConnectionLost]"
    by (simp add: run_def tick_inputs_def PingAndCheckConnection_def connected_def Write_def
        Let_def)
  have s: "ConnectionToServerLost ?s"
    by (simp add: run_def tick_inputs_def PingAndCheckConnection_def connected_def Write_def
        Let_def ConnectionToServerLost_def)
  note t = connection_lost_once
    [of ?ticks ?cfg 0 "[]" ?s]
  have t1: "ConnectionToServerLost (run ?cfg (connected 0) (tick_inputs ?ticks))"
    using t h by simp
  have t2: "ConnectionToServerLost (run ?cfg ?s [PingResponse 1 9 6.5, TimerTick 7 0])"
    using connection_lost_once [of ?ticks ?cfg 0 "[PingResponse 1 9 6.5, TimerTick 7 0]" ?s] s
    by simp
  show ?thesis using t1 t2 e by simp
qed

section \<open>Rounding to a binary format\<close>

lemma round_half_even_error: "\<bar>of_int (round_half_even m) - m\<bar> \<le> 1 / 2"
proof -
  have "of_int \<lfloor>m\<rfloor> \<le> m" "m < of_int \<lfloor>m\<rfloor> + 1" by linarith+
  then show ?thesis by (auto simp: round_half_even_def Let_def)
qed

lemma round_half_even_of_int [simp]: "round_half_even (of_int k) = k"
  by (simp add: round_half_even_def)

lemma floor_log2_bounds:
  assumes "x \<noteq> 0"
  shows "2 powr of_int \<lfloor>log 2 \<bar>x\<bar>\<rfloor> \<le> \<bar>x\<bar>" and "\<bar>x\<bar> < 2 powr (of_int \<lfloor>log 2 \<bar>x\<bar>\<rfloor> + 1)"
proof -
  have p: "0 < \<bar>x\<bar>" using assms by simp
  have "\<lfloor>log 2 \<bar>x\<bar>\<rfloor> = \<lfloor>log 2 \<bar>x\<bar>\<rfloor>" ..
  then have "2 powr of_int \<lfloor>log 2 \<bar>x\<bar>\<rfloor> \<le> \<bar>x\<bar> \<and> \<bar>x\<bar> < 2 powr (of_int \<lfloor>log 2 \<bar>x\<bar>\<rfloor> + 1)"
    using floor_log_eq_powr_iff [OF p, of 2 "\<lfloor>log 2 \<bar>x\<bar>\<rfloor>"] by simp
  then show "2 powr of_int \<lfloor>log 2 \<bar>x\<bar>\<rfloor> \<le> \<bar>x\<bar>"
    and "\<bar>x\<bar> < 2 powr (of_int \<lfloor>log 2 \<bar>x\<bar>\<rfloor> + 1)" by simp_all
qed

lemma round_to_grid_error:
  "\<bar>round_to_grid p emin x - x\<bar> \<le> 2 powr of_int (ulp_exponent p emin x) / 2"
proof (cases "x = 0")
  case True
  then show ?thesis by (simp add: round_to_grid_def)
next
  case False
  let ?u = "2 powr of_int (ulp_exponent p emin x) :: real"
  have u: "0 < ?u" by simp
  have "round_to_grid p emin x - x = (of_int (round_half_even (x / ?u)) - x / ?u) * ?u"
    using False u by (simp add: round_to_grid_def Let_def algebra_simps)
  then have "\<bar>round_to_grid p emin x - x\<bar> = \<bar>of_int (round_half_even (x / ?u)) - x / ?u\<bar> * ?u"
    using u by (simp add: abs_mult)
  also have "\<dots> \<le> 1 / 2 * ?u"
    using round_half_even_error [of "x / ?u"] u by (intro mult_right_mono) simp_all
  finally show ?thesis by simp
qed

lemma round_to_grid_error_bound:
  "\<bar>round_to_grid p emin x - x\<bar> \<le> \<bar>x\<bar> * 2 powr (- real p) + 2 powr (of_int emin - real p)"
proof (cases "x = 0")
  case True
  then show ?thesis by (simp add: round_to_grid_def)
next
  case False
  let ?l = "\<lfloor>log 2 \<bar>x\<bar>\<rfloor>"
  have half: "2 powr of_int (ulp_exponent p emin x) / 2 = 2 powr (of_int (max ?l emin) - real p)"
    by (simp add: ulp_exponent_def powr_diff powr_add algebra_simps)
  have "2 powr (of_int (max ?l emin) - real p) \<le>
          \<bar>x\<bar> * 2 powr (- real p) + 2 powr (of_int emin - real p)"
  proof (cases "emin \<le> ?l")
    case True
    then have "2 powr (of_int (max ?l emin) - real p) = 2 powr of_int ?l * 2 powr (- real p)"
      by (simp add: max_def powr_diff powr_minus divide_inverse)
    also have "\<dots> \<le> \<bar>x\<bar> * 2 powr (- real p)"
      using floor_log2_bounds(1) [OF False] by (intro mult_right_mono) simp_all
    finally show ?thesis by (simp add: add_increasing2)
  next
    case False
    then have "2 powr (of_int (max ?l emin) - real p) = 2 powr (of_int emin - real p)"
      by (simp add: max_def)
    then show ?thesis by simp
  qed
  then show ?thesis using round_to_grid_error [of p emin x] half by linarith
qed

lemma round_to_grid_exact:
  assumes x: "x = of_int k * 2 powr of_int c" and k: "\<bar>k\<bar> < 2 ^ p"
    and c: "emin - int p + 1 \<le> c"
  shows "round_to_grid p emin x = x"
proof (cases "x = 0")
  case True
  then show ?thesis by (simp add: round_to_grid_def)
next
  case False
  let ?l = "\<lfloor>log 2 \<bar>x\<bar>\<rfloor>"
  let ?c' = "ulp_exponent p emin x"
  have "\<bar>x\<bar> = of_int \<bar>k\<bar> * 2 powr of_int c" by (simp add: x abs_mult)
  also have "\<dots> < 2 ^ p * 2 powr of_int c"
  proof -
    have "(of_int \<bar>k\<bar> :: real) < of_int (2 ^ p)" using k by (simp only: of_int_less_iff)
    then show ?thesis by (intro mult_strict_right_mono) simp_all
  qed
  also have "\<dots> = 2 powr (of_int (int p + c))"
    by (simp add: powr_add powr_realpow)
  finally have "\<bar>x\<bar> < 2 powr (of_int (int p + c))" .
  moreover have "2 powr of_int ?l \<le> \<bar>x\<bar>" by (rule floor_log2_bounds(1) [OF False])
  ultimately have "2 powr of_int ?l < (2 :: real) powr (of_int (int p + c))" by linarith
  then have "?l < int p + c" by simp
  then have le: "?c' \<le> c" using c by (simp add: ulp_exponent_def)
  then obtain n where n: "c = ?c' + int n"
    by (metis add.commute zle_iff_zadd)
  have "x / 2 powr of_int ?c' = of_int k * 2 powr (of_int c - of_int ?c')"
    by (simp add: x powr_diff)
  also have "\<dots> = of_int k * 2 ^ n"
    by (simp add: n powr_realpow)
  also have "\<dots> = of_int (k * 2 ^ n)" by simp
  finally have m: "x / 2 powr of_int ?c' = of_int (k * 2 ^ n)" .
  have "round_to_grid p emin x = of_int (k * 2 ^ n) * 2 powr of_int ?c'"
    using False unfolding round_to_grid_def Let_def m by (simp del: of_int_mult of_int_power)
  also have "\<dots> = x"
    using m by (simp add: field_simps)
  finally show ?thesis .
qed

lemma round_to_grid_eval:
  assumes "x \<noteq> 0" and "2 powr of_int e \<le> \<bar>x\<bar>" and "\<bar>x\<bar> < 2 powr (of_int e + 1)"
    and "emin \<le> e"
  shows "round_to_grid p emin x =
           of_int (round_half_even (x / 2 powr of_int (e - int p + 1))) *
             2 powr of_int (e - int p + 1)"
proof -
  have p: "0 < \<bar>x\<bar>" using assms(1) by simp
  have "\<lfloor>log 2 \<bar>x\<bar>\<rfloor> = e"
    using floor_log_eq_powr_iff [OF p, of 2 e] assms(2,3) by simp
  then have "ulp_exponent p emin x = e - int p + 1"
    using assms(4) by (simp add: ulp_exponent_def)
  then show ?thesis using assms(1) by (simp add: round_to_grid_def Let_def)
qed

lemma pow2_le_powr: "(2 :: real) ^ 61 \<le> 2 powr of_int 128" "(2 :: real) ^ 61 \<le> 2 powr of_int 1024"
proof -
  have "(2 :: real) powr 61 \<le> 2 powr 128" "(2 :: real) powr 61 \<le> 2 powr 1024"
    by simp_all
  then show "(2 :: real) ^ 61 \<le> 2 powr of_int 128" "(2 :: real) ^ 61 \<le> 2 powr of_int 1024"
    by simp_all
qed

lemma round64_error:
  "\<bar>round_to_grid 53 (- 1022) x - x\<bar> \<le> (\<bar>x\<bar> + 1) / 2 ^ 50"
proof -
  have a: "(2 :: real) powr (- real 53) \<le> 1 / 2 ^ 50"
    by (simp add: powr_neg_numeral)
  have "(2 :: real) powr (of_int (- 1022) - real 53) \<le> 2 powr (- 50)"
    by simp
  then have b: "(2 :: real) powr (of_int (- 1022) - real 53) \<le> 1 / 2 ^ 50"
    by (simp add: powr_neg_numeral)
  have "\<bar>x\<bar> * 2 powr (- real 53) \<le> \<bar>x\<bar> * (1 / 2 ^ 50)"
    using a by (intro mult_left_mono) simp_all
  then show ?thesis
    using round_to_grid_error_bound [of 53 "- 1022" x] b
    by (simp add: add_divide_distrib)
qed

lemma round32_error:
  "\<bar>round_to_grid 24 (- 126) x - x\<bar> \<le> (\<bar>x\<bar> + 1) / 2 ^ 20"
proof -
  have a: "(2 :: real) powr (- real 24) \<le> 1 / 2 ^ 20"
    by (simp add: powr_neg_numeral)
  have "(2 :: real) powr (of_int (- 126) - real 24) \<le> 2 powr (- 20)"
    by simp
  then have b: "(2 :: real) powr (of_int (- 126) - real 24) \<le> 1 / 2 ^ 20"
    by (simp add: powr_neg_numeral)
  have "\<bar>x\<bar> * 2 powr (- real 24) \<le> \<bar>x\<bar> * (1 / 2 ^ 20)"
    using a by (intro mult_left_mono) simp_all
  then show ?thesis
    using round_to_grid_error_bound [of 24 "- 126" x] b
    by (simp add: add_divide_distrib)
qed

lemma fl64_small:
  "\<bar>x\<bar> \<le> 2 ^ 60 \<Longrightarrow> fl64 x = Finite (round_to_grid 53 (- 1022) x)"
proof -
  assume x: "\<bar>x\<bar> \<le> 2 ^ 60"
  have "\<bar>x\<bar> + 1 \<le> 2 ^ 59 * 2 ^ 50" using x by simp
  then have "(\<bar>x\<bar> + 1) / 2 ^ 50 \<le> 2 ^ 59"
    by (simp add: pos_divide_le_eq)
  then have "\<bar>round_to_grid 53 (- 1022) x - x\<bar> \<le> 2 ^ 59"
    using round64_error [of x] by linarith
  then have "\<bar>round_to_grid 53 (- 1022) x\<bar> < 2 ^ 61"
    using x by simp
  then have "\<bar>round_to_grid 53 (- 1022) x\<bar> < 2 powr of_int 1024"
    using pow2_le_powr(2) by linarith
  then show ?thesis by (simp add: fl64_def to_format_def Let_def not_le abs_less_iff)
qed

lemma fl32_small:
  "\<bar>x\<bar> \<le> 2 ^ 60 \<Longrightarrow> fl32 x = Finite (round_to_grid 24 (- 126) x)"
proof -
  assume x: "\<bar>x\<bar> \<le> 2 ^ 60"
  have "\<bar>x\<bar> + 1 \<le> 2 ^ 59 * 2 ^ 20" using x by simp
  then have "(\<bar>x\<bar> + 1) / 2 ^ 20 \<le> 2 ^ 59"
    by (simp add: pos_divide_le_eq)
  then have "\<bar>round_to_grid 24 (- 126) x - x\<bar> \<le> 2 ^ 59"
    using round32_error [of x] by linarith
  then have "\<bar>round_to_grid 24 (- 126) x\<bar> < 2 ^ 61"
    using x by simp
  then have "\<bar>round_to_grid 24 (- 126) x\<bar> < 2 powr of_int 128"
    using pow2_le_powr(1) by linarith
  then show ?thesis by (simp add: fl32_def to_format_def Let_def not_le abs_less_iff)
qed

lemma div_ge_one_le:
  fixes y K :: real
  assumes "0 \<le> y" and "1 \<le> K"
  shows "y / K \<le> y"
proof -
  have "y / K \<le> y / 1"
    using assms by (intro divide_left_mono) simp_all
  then show ?thesis by simp
qed

lemma rounded_abs_bound:
  fixes r x K :: real
  assumes "\<bar>r - x\<bar> \<le> (\<bar>x\<bar> + 1) / K" and "\<bar>x\<bar> \<le> B" and "0 < K"
  shows "\<bar>r\<bar> \<le> B + (B + 1) / K"
proof -
  have "(\<bar>x\<bar> + 1) / K \<le> (B + 1) / K"
    using assms(2,3) by (simp add: divide_right_mono)
  then show ?thesis using assms(1,2) by linarith
qed

lemma rounded_upper:
  fixes r x K :: real
  assumes "\<bar>r - x\<bar> \<le> (\<bar>x\<bar> + 1) / K" and "x \<le> b" and "0 \<le> b" and "1 \<le> K"
  shows "r \<le> b + (b + 1) / K"
proof (cases "0 \<le> x")
  case True
  then have "(\<bar>x\<bar> + 1) / K \<le> (b + 1) / K"
    using assms(2,4) by (simp add: divide_right_mono)
  then show ?thesis using assms(1,2) by linarith
next
  case False
  then have "(- x) / K \<le> - x" using assms(4) by (intro div_ge_one_le) simp_all
  moreover have "(\<bar>x\<bar> + 1) / K = (- x) / K + 1 / K"
    using False by (simp add: add_divide_distrib diff_divide_distrib)
  moreover have "1 / K \<le> (b + 1) / K"
    using assms(3,4) by (simp add: divide_right_mono)
  ultimately show ?thesis using assms(1,3) False by linarith
qed

lemma rounded_lower:
  fixes r x K :: real
  assumes "\<bar>r - x\<bar> \<le> (\<bar>x\<bar> + 1) / K" and "b \<le> x" and "0 \<le> b" and "1 \<le> K"
  shows "b - (b + 1) / K \<le> r"
proof -
  have x: "0 \<le> x" using assms(2,3) by linarith
  have "(x - b) / K \<le> x - b" using assms(2,4) by (intro div_ge_one_le) simp_all
  moreover have "(\<bar>x\<bar> + 1) / K = (x - b) / K + (b + 1) / K"
    using x by (simp add: add_divide_distrib [symmetric])
  ultimately show ?thesis using assms(1) by linarith
qed

section \<open>The animation loop within bounded times\<close>

lemma compute_frame_bounded:
  assumes l: "lastAnimationStartTime u = Finite l" and s: "\<bar>s\<bar> \<le> 2 ^ 25" and l25: "\<bar>l\<bar> \<le> 2 ^ 25"
  shows "\<exists>c. compute_frame (Finite s) u = Inr c \<and> 0 \<le> c \<and> (s \<le> l \<longrightarrow> c = 0)"
proof -
  define d where "d = round_to_grid 53 (- 1022) (s + - l)"
  define p where "p = round_to_grid 53 (- 1022) (30 * d)"
  define x where "x = round_to_grid 53 (- 1022) (p + 0.5)"
  have ed: "\<bar>d - (s + - l)\<bar> \<le> (\<bar>s + - l\<bar> + 1) / 2 ^ 50"
    unfolding d_def by (rule round64_error)
  have ep: "\<bar>p - 30 * d\<bar> \<le> (\<bar>30 * d\<bar> + 1) / 2 ^ 50"
    unfolding p_def by (rule round64_error)
  have ex: "\<bar>x - (p + 0.5)\<bar> \<le> (\<bar>p + 0.5\<bar> + 1) / 2 ^ 50"
    unfolding x_def by (rule round64_error)
  have a: "\<bar>s + - l\<bar> \<le> 67108864" using s l25 by simp
  have d_eq: "fp_sub fl64 (Finite s) (Finite l) = Finite d"
    using a unfolding d_def fp_sub_def by (simp add: fl64_small)
  have d_abs: "\<bar>d\<bar> \<le> 67108865"
    using rounded_abs_bound [OF ed a] by simp
  then have a30: "\<bar>30 * d\<bar> \<le> 2013265950" by simp
  have p_eq: "fp_mul_pos fl64 30 (Finite d) = Finite p"
    using a30 unfolding p_def by (simp add: fl64_small)
  have p_abs: "\<bar>p\<bar> \<le> 2013265951"
    using rounded_abs_bound [OF ep a30] by simp
  then have ap: "\<bar>p + 0.5\<bar> \<le> 2013265952" by simp
  have x_eq: "fp_add fl64 (Finite p) (Finite 0.5) = Finite x"
    using ap unfolding x_def by (simp add: fl64_small)
  have x_abs: "\<bar>x\<bar> \<le> 2013265953"
    using rounded_abs_bound [OF ex ap] by simp
  define t where "t = (if 0 \<le> x then \<lfloor>x\<rfloor> else \<lceil>x\<rceil>)"
  have t_range: "- 2147483648 \<le> t \<and> t \<le> 2147483647"
  proof (cases "0 \<le> x")
    case True
    then have "0 \<le> \<lfloor>x\<rfloor>" by simp
    moreover have "\<lfloor>x\<rfloor> \<le> 2013265953" using x_abs True by (simp add: floor_le_iff)
    ultimately show ?thesis using True by (simp add: t_def)
  next
    case False
    then have "\<lceil>x\<rceil> \<le> 0" by (simp add: ceiling_le_iff)
    moreover have "- 2013265953 \<le> \<lceil>x\<rceil>" using x_abs False by (simp add: le_ceiling_iff)
    ultimately show ?thesis using False by (simp add: t_def)
  qed
  have "double_to_int (Finite x) = Inr t"
    using t_range by (auto simp: double_to_int_def Let_def t_def)
  then have cf: "compute_frame (Finite s) u = Inr (max 0 t)"
    unfolding compute_frame_def l d_eq p_eq x_eq by simp
  have "max 0 t = 0" if "s \<le> l"
  proof -
    have "s + - l \<le> 0" using that by simp
    from rounded_upper [OF ed this]
    have "d \<le> 1 / 1000" by simp
    then have "30 * d \<le> 3 / 100" by simp
    from rounded_upper [OF ep this]
    have "p \<le> 4 / 100" by simp
    then have "p + 0.5 \<le> 54 / 100" by simp
    from rounded_upper [OF ex this]
    have "x < 1" by simp
    then have "t \<le> 0" by (simp add: t_def floor_le_iff ceiling_le_iff)
    then show ?thesis by simp
  qed
  then show ?thesis using cf by simp
qed

lemma quotient_bounds:
  assumes f1: "1 \<le> framesPerDirection" and f2: "framesPerDirection \<le> 2147483647"
  shows "\<exists>q. fp_div_pos fl32 (fl32 (real_of_int framesPerDirection)) 30 = Finite q \<and>
             1 / 32 \<le> q \<and> q \<le> 2 ^ 29"
proof -
  define n where "n = round_to_grid 24 (- 126) (real_of_int framesPerDirection)"
  define q where "q = round_to_grid 24 (- 126) (n / 30)"
  have en: "\<bar>n - real_of_int framesPerDirection\<bar> \<le> (\<bar>real_of_int framesPerDirection\<bar> + 1) / 2 ^ 20"
    unfolding n_def by (rule round32_error)
  have eq: "\<bar>q - n / 30\<bar> \<le> (\<bar>n / 30\<bar> + 1) / 2 ^ 20"
    unfolding q_def by (rule round32_error)
  have lo: "1 \<le> real_of_int framesPerDirection" using f1 by simp
  have hi: "real_of_int framesPerDirection \<le> 2147483647" using f2 by simp
  have n_eq: "fl32 (real_of_int framesPerDirection) = Finite n"
    using lo hi unfolding n_def by (intro fl32_small) simp
  from rounded_lower [OF en lo] have n_lo: "30 / 31 \<le> n" by simp
  from rounded_upper [OF en hi] have n_hi: "n \<le> 2147485696" by simp
  have a_lo: "1 / 31 \<le> n / 30" using n_lo by simp
  have a_hi: "n / 30 \<le> 71582857" using n_hi by simp
  have q_eq: "fl32 (n / 30) = Finite q"
    using a_lo a_hi unfolding q_def by (intro fl32_small) simp
  from rounded_lower [OF eq a_lo] have "1 / 32 \<le> q" by simp
  moreover from rounded_upper [OF eq a_hi] have "q \<le> 2 ^ 29" by simp
  ultimately show ?thesis by (simp add: n_eq q_eq)
qed

lemma next_start_progress:
  assumes l: "lastAnimationStartTime u = Finite l" and s25: "\<bar>s\<bar> \<le> 2 ^ 25"
    and l25: "\<bar>l\<bar> \<le> 2 ^ 25"
    and f1: "1 \<le> framesPerDirection" and f2: "framesPerDirection \<le> 2147483647"
  shows "\<exists>l'. next_start framesPerDirection (Finite s) u = Finite l' \<and>
              (l' = s \<or> (l + 1 / 64 \<le> l' \<and> l' < s))"
proof -
  from quotient_bounds [OF f1 f2] obtain q where
    q: "fp_div_pos fl32 (fl32 (real_of_int framesPerDirection)) 30 = Finite q"
    and q_lo: "1 / 32 \<le> q" and q_hi: "q \<le> 2 ^ 29"
    by auto
  define r where "r = round_to_grid 53 (- 1022) (l + q)"
  have er: "\<bar>r - (l + q)\<bar> \<le> (\<bar>l + q\<bar> + 1) / 2 ^ 50"
    unfolding r_def by (rule round64_error)
  have a: "\<bar>l + q\<bar> \<le> 2 ^ 30" using l25 q_lo q_hi by simp
  have r_eq: "fp_add fl64 (Finite l) (Finite q) = Finite r"
    using a unfolding r_def by (simp add: fl64_small)
  have "(\<bar>l + q\<bar> + 1) / 2 ^ 50 \<le> 1 / 64" using a by simp
  then have "l + q - 1 / 64 \<le> r" using er by linarith
  then have r_lo: "l + 1 / 64 \<le> r" using q_lo by simp
  have "next_start framesPerDirection (Finite s) u = (if r < s then Finite r else Finite s)"
    unfolding next_start_def l q r_eq by (simp add: std_min_def)
  then show ?thesis using r_lo by auto
qed

lemma next_start_zero:
  assumes l: "lastAnimationStartTime u = Finite l" and l25: "\<bar>l\<bar> \<le> 2 ^ 25"
    and rep: "fl64 l = Finite l"
  shows "next_start 0 (Finite s) u = (if l < s then Finite l else Finite s)"
proof -
  have z: "fl32 0 = Finite 0"
    by (simp add: fl32_def to_format_def round_to_grid_def)
  show ?thesis
    unfolding next_start_def l by (simp add: z rep std_min_def)
qed

lemma loop_step_start:
  "lastAnimationStartTime (loop_step rand numVariants framesPerDirection serverTime u) =
     next_start framesPerDirection serverTime u"
  by (simp add: loop_step_def Let_def)

lemma animation_loop_break:
  "compute_frame serverTime u = Inr c \<Longrightarrow> c < framesPerDirection \<Longrightarrow>
   animation_loop rand numVariants framesPerDirection serverTime u = Some (Inr (c, u))"
  by (subst animation_loop.simps) simp

lemma animation_loop_continue:
  "compute_frame serverTime u = Inr c \<Longrightarrow> \<not> c < framesPerDirection \<Longrightarrow> 0 < numVariants \<Longrightarrow>
   animation_loop rand numVariants framesPerDirection serverTime u =
     animation_loop rand numVariants framesPerDirection serverTime
       (loop_step rand numVariants framesPerDirection serverTime u)"
  by (subst animation_loop.simps) (simp add: loop_step_def Let_def)

lemma animation_loop_returns:
  assumes f1: "1 \<le> framesPerDirection" and f2: "framesPerDirection \<le> 2147483647"
    and v: "0 < numVariants" and s25: "\<bar>s\<bar> \<le> 2 ^ 25"
  shows "lastAnimationStartTime u = Finite l \<Longrightarrow> \<bar>l\<bar> \<le> 2 ^ 25 \<Longrightarrow>
         \<exists>frame u'. animation_loop rand numVariants framesPerDirection (Finite s) u
                       = Some (Inr (frame, u')) \<and>
                     0 \<le> frame \<and> frame < framesPerDirection"
proof (induction "nat \<lfloor>64 * (s - l)\<rfloor>" arbitrary: u l rule: less_induct)
  case less
  from compute_frame_bounded [OF less.prems(1) s25 less.prems(2)] obtain c where
    c: "compute_frame (Finite s) u = Inr c" and c0: "0 \<le> c" and cz: "s \<le> l \<longrightarrow> c = 0"
    by auto
  show ?case
  proof (cases "c < framesPerDirection")
    case True
    then show ?thesis using animation_loop_break [OF c True] c0 by simp
  next
    case False
    then have ls: "l < s" using cz f1 by (cases "s \<le> l") simp_all
    let ?u2 = "loop_step rand numVariants framesPerDirection (Finite s) u"
    have unfold: "animation_loop rand numVariants framesPerDirection (Finite s) u =
                  animation_loop rand numVariants framesPerDirection (Finite s) ?u2"
      by (rule animation_loop_continue [OF c False v])
    from next_start_progress [OF less.prems(1) s25 less.prems(2) f1 f2] obtain l' where
      l': "lastAnimationStartTime ?u2 = Finite l'"
      and pr: "l' = s \<or> (l + 1 / 64 \<le> l' \<and> l' < s)"
      by (auto simp: loop_step_start)
    have b': "\<bar>l'\<bar> \<le> 2 ^ 25" using pr s25 less.prems(2) by auto
    show ?thesis
    proof (cases "l' = s")
      case True
      from compute_frame_bounded [OF l' s25 b'] True
      have "compute_frame (Finite s) ?u2 = Inr 0" by auto
      from animation_loop_break [OF this, of framesPerDirection rand numVariants] f1
      show ?thesis unfolding unfold by simp
    next
      case False
      then have p: "l + 1 / 64 \<le> l'" "l' < s" using pr by simp_all
      have "64 * (s - l') \<le> 64 * (s - l) - 1" using p(1) by simp
      then have "\<lfloor>64 * (s - l')\<rfloor> \<le> \<lfloor>64 * (s - l) - 1\<rfloor>" by (rule floor_mono)
      then have "\<lfloor>64 * (s - l')\<rfloor> < \<lfloor>64 * (s - l)\<rfloor>" by simp
      moreover have "0 \<le> \<lfloor>64 * (s - l')\<rfloor>" using p(2) by simp
      ultimately have "nat \<lfloor>64 * (s - l')\<rfloor> < nat \<lfloor>64 * (s - l)\<rfloor>" by linarith
      from less.hyps [OF this l' b'] show ?thesis unfolding unfold .
    qed
  qed
qed

lemma animation_loop_no_progress:
  assumes r: "animation_loop rand numVariants framesPerDirection serverTime u = Some r"
  shows "\<not> (framesPerDirection = 0 \<and> 0 < numVariants \<and>
            (\<exists>s l. serverTime = Finite s \<and> lastAnimationStartTime u = Finite l \<and>
                   \<bar>s\<bar> \<le> 2 ^ 25 \<and> \<bar>l\<bar> \<le> 2 ^ 25 \<and> fl64 s = Finite s \<and> fl64 l = Finite l))"
proof (rule animation_loop.raw_induct
    [where P = "\<lambda>rand numVariants framesPerDirection serverTime u r.
                  \<not> (framesPerDirection = (0::int) \<and> 0 < (numVariants::nat) \<and>
                     (\<exists>s l. serverTime = Finite s \<and> lastAnimationStartTime u = Finite l \<and>
                        \<bar>s\<bar> \<le> 2 ^ 25 \<and> \<bar>l\<bar> \<le> 2 ^ 25 \<and> fl64 s = Finite s \<and>
                        fl64 l = Finite l))", OF _ r])
  fix S :: "(nat \<Rightarrow> nat) \<Rightarrow> nat \<Rightarrow> int \<Rightarrow> fp \<Rightarrow> ClientUnit \<Rightarrow> (render_error + int \<times> ClientUnit) option"
  fix rnd :: "nat \<Rightarrow> nat" and nv :: nat and fpd :: int and st :: fp and v :: ClientUnit
    and res :: "render_error + int \<times> ClientUnit"
  assume IH: "\<And>rnd nv fpd st v res. S rnd nv fpd st v = Some res \<Longrightarrow>
                \<not> (fpd = 0 \<and> 0 < nv \<and>
                   (\<exists>s l. st = Finite s \<and> lastAnimationStartTime v = Finite l \<and>
                      \<bar>s\<bar> \<le> 2 ^ 25 \<and> \<bar>l\<bar> \<le> 2 ^ 25 \<and> fl64 s = Finite s \<and> fl64 l = Finite l))"
  assume body:
    "(case compute_frame st v of
        Inl e \<Rightarrow> Some (Inl e)
      | Inr frame \<Rightarrow>
          if frame < fpd then Some (Inr (frame, v))
          else
            (let u1 = v\<lparr>lastAnimationStartTime := next_start fpd st v\<rparr>
             in if currentAnimationVariant u1 = 1
                then S rnd nv fpd st (u1\<lparr>currentAnimationVariant := 0\<rparr>)
                else if nv = 0 then Some (Inl RemainderByZero)
                else S rnd nv fpd st
                       (u1\<lparr>currentAnimationVariant := rnd (randCalls u1) mod nv,
                           randCalls := Suc (randCalls u1)\<rparr>))) = Some res"
  show "\<not> (fpd = 0 \<and> 0 < nv \<and>
            (\<exists>s l. st = Finite s \<and> lastAnimationStartTime v = Finite l \<and>
               \<bar>s\<bar> \<le> 2 ^ 25 \<and> \<bar>l\<bar> \<le> 2 ^ 25 \<and> fl64 s = Finite s \<and> fl64 l = Finite l))"
  proof
    assume a: "fpd = 0 \<and> 0 < nv \<and>
            (\<exists>s l. st = Finite s \<and> lastAnimationStartTime v = Finite l \<and>
               \<bar>s\<bar> \<le> 2 ^ 25 \<and> \<bar>l\<bar> \<le> 2 ^ 25 \<and> fl64 s = Finite s \<and> fl64 l = Finite l)"
    then obtain s l where st: "st = Finite s" and l: "lastAnimationStartTime v = Finite l"
      and s25: "\<bar>s\<bar> \<le> 2 ^ 25" and l25: "\<bar>l\<bar> \<le> 2 ^ 25"
      and rs: "fl64 s = Finite s" and rl: "fl64 l = Finite l"
      by auto
    from compute_frame_bounded [OF l s25 l25] obtain c where
      c: "compute_frame st v = Inr c" and c0: "\<not> c < fpd"
      using a st by auto
    let ?v2 = "loop_step rnd nv fpd st v"
    have "S rnd nv fpd st ?v2 = Some res"
      using body c c0 a by (simp add: loop_step_def Let_def split: if_splits)
    moreover have "lastAnimationStartTime ?v2 = (if l < s then Finite l else Finite s)"
      using next_start_zero [OF l l25 rl, of s] a st by (simp add: loop_step_start)
    ultimately show False
      using IH [of rnd nv fpd st ?v2 res] a st s25 l25 rs rl by (auto split: if_splits)
  qed
qed

section \<open>Evaluating the loop at given times\<close>

lemma fl64_exact:
  assumes "x = of_int k * 2 powr of_int c" and "\<bar>k\<bar> < 2 ^ 53" and "- 1074 \<le> c"
    and "\<bar>x\<bar> \<le> 2 ^ 60"
  shows "fl64 x = Finite x"
  using fl64_small [OF assms(4)] round_to_grid_exact [OF assms(1,2), of "- 1022"] assms(3)
  by simp

lemma fl32_exact:
  assumes "x = of_int k * 2 powr of_int c" and "\<bar>k\<bar> < 2 ^ 24" and "- 149 \<le> c"
    and "\<bar>x\<bar> \<le> 2 ^ 60"
  shows "fl32 x = Finite x"
  using fl32_small [OF assms(4)] round_to_grid_exact [OF assms(1,2), of "- 126"] assms(3)
  by simp

lemma fl32_third: "fl32 (1 / 3) = Finite (11184811 / 33554432)"
proof -
  have "round_to_grid 24 (- 126) (1 / 3) =
          of_int (round_half_even ((1 / 3) / 2 powr of_int (- 2 - int 24 + 1))) *
            2 powr of_int (- 2 - int 24 + 1)"
    by (rule round_to_grid_eval) (simp_all add: powr_neg_numeral)
  also have "\<dots> = 11184811 / 33554432"
    by (simp add: powr_neg_numeral round_half_even_def Let_def)
  finally show ?thesis by (simp add: fl32_small)
qed

lemma fl64_absorbs:
  "fl64 (9007199254740992 + 11184811 / 33554432) = Finite 9007199254740992"
proof -
  let ?x = "9007199254740992 + 11184811 / 33554432 :: real"
  have "round_to_grid 53 (- 1022) ?x =
          of_int (round_half_even (?x / 2 powr of_int (53 - int 53 + 1))) *
            2 powr of_int (53 - int 53 + 1)"
    by (rule round_to_grid_eval) simp_all
  also have "\<dots> = 9007199254740992"
    by (simp add: round_half_even_def Let_def)
  finally show ?thesis by (simp add: fl64_small)
qed

lemma cpp_div_nonneg: "0 \<le> a \<Longrightarrow> 0 < b \<Longrightarrow> cpp_div a b = a div b"
  by (cases "a = 0") (simp_all add: cpp_div_def)

lemma animation_loop_error:
  "compute_frame serverTime u = Inl e \<Longrightarrow>
   animation_loop rand numVariants framesPerDirection serverTime u = Some (Inl e)"
  by (subst animation_loop.simps) simp

lemma compute_frame_at_2_53:
  assumes "lastAnimationStartTime u = Finite 9007199254740992"
  shows "compute_frame (Finite 9007199254740994) u = Inr 60"
proof -
  have a: "fl64 2 = Finite 2" by (rule fl64_exact [of 2 1 1]) simp_all
  have b: "fl64 60 = Finite 60" by (rule fl64_exact [of 60 60 0]) simp_all
  have c: "fl64 (121 / 2) = Finite (121 / 2)"
    by (rule fl64_exact [of "121 / 2" 121 "- 1"]) (simp_all add: powr_neg_numeral)
  show ?thesis
    by (simp add: compute_frame_def assms fp_sub_def a b c double_to_int_def Let_def)
qed

lemma next_start_at_2_53:
  assumes "lastAnimationStartTime u = Finite 9007199254740992"
  shows "next_start 10 (Finite 9007199254740994) u = Finite 9007199254740992"
proof -
  have a: "fl32 10 = Finite 10" by (rule fl32_exact [of 10 10 0]) simp_all
  have q: "fp_div_pos fl32 (fl32 (real_of_int 10)) 30 = Finite (11184811 / 33554432)"
    by (simp add: a fl32_third)
  have sum: "fp_add fl64 (Finite 9007199254740992) (Finite (11184811 / 33554432)) =
               Finite 9007199254740992"
    using fl64_absorbs by simp
  show ?thesis
    unfolding next_start_def assms q sum by (simp add: std_min_def)
qed

lemma animation_loop_stuck:
  assumes r: "animation_loop rand numVariants framesPerDirection serverTime u = Some r"
  shows "\<not> (framesPerDirection = 10 \<and> 0 < numVariants \<and>
            serverTime = Finite 9007199254740994 \<and>
            lastAnimationStartTime u = Finite 9007199254740992)"
proof (rule animation_loop.raw_induct
    [where P = "\<lambda>rand numVariants framesPerDirection serverTime u r.
                  \<not> (framesPerDirection = (10::int) \<and> 0 < (numVariants::nat) \<and>
                     serverTime = Finite 9007199254740994 \<and>
                     lastAnimationStartTime u = Finite 9007199254740992)", OF _ r])
  fix S :: "(nat \<Rightarrow> nat) \<Rightarrow> nat \<Rightarrow> int \<Rightarrow> fp \<Rightarrow> ClientUnit \<Rightarrow> (render_error + int \<times> ClientUnit) option"
  fix rnd :: "nat \<Rightarrow> nat" and nv :: nat and fpd :: int and st :: fp and v :: ClientUnit
    and res :: "render_error + int \<times> ClientUnit"
  assume IH: "\<And>rnd nv fpd st v res. S rnd nv fpd st v = Some res \<Longrightarrow>
                \<not> (fpd = 10 \<and> 0 < nv \<and> st = Finite 9007199254740994 \<and>
                   lastAnimationStartTime v = Finite 9007199254740992)"
  assume body:
    "(case compute_frame st v of
        Inl e \<Rightarrow> Some (Inl e)
      | Inr frame \<Rightarrow>
          if frame < fpd then Some (Inr (frame, v))
          else
            (let u1 = v\<lparr>lastAnimationStartTime := next_start fpd st v\<rparr>
             in if currentAnimationVariant u1 = 1
                then S rnd nv fpd st (u1\<lparr>currentAnimationVariant := 0\<rparr>)
                else if nv = 0 then Some (Inl RemainderByZero)
                else S rnd nv fpd st
                       (u1\<lparr>currentAnimationVariant := rnd (randCalls u1) mod nv,
                           randCalls := Suc (randCalls u1)\<rparr>))) = Some res"
  show "\<not> (fpd = 10 \<and> 0 < nv \<and> st = Finite 9007199254740994 \<and>
            lastAnimationStartTime v = Finite 9007199254740992)"
  proof
    assume a: "fpd = 10 \<and> 0 < nv \<and> st = Finite 9007199254740994 \<and>
            lastAnimationStartTime v = Finite 9007199254740992"
    then have l: "lastAnimationStartTime v = Finite 9007199254740992" by simp
    let ?v2 = "loop_step rnd nv fpd st v"
    have "S rnd nv fpd st ?v2 = Some res"
      using body a compute_frame_at_2_53 [OF l]
      by (simp add: loop_step_def Let_def split: if_splits)
    moreover have "lastAnimationStartTime ?v2 = Finite 9007199254740992"
      using next_start_at_2_53 [OF l] a by (simp add: loop_step_start)
    ultimately show False using IH [of rnd nv fpd st ?v2 res] a by simp
  qed
qed

text \<open>
  C10, as stated, fails. The claim is that for every call of \<open>Render\<close> whose current sprite
  has at least \<open>kNumFacingDirections\<close> frames the loop ends. With 160 frames and 16
  directions (\<open>framesPerDirection = 10\<close>), \<open>lastAnimationStartTime = 2 ^ 53\<close> and
  \<open>serverTime = 2 ^ 53 + 2\<close> the frame computed is 60, the \<open>float\<close> quotient
  \<open>10 / 30.f\<close> is absorbed when it is added to \<open>2 ^ 53\<close> (the \<open>double\<close>s there are
  2 apart), \<open>lastAnimationStartTime\<close> stays what it was, and the loop never returns.
\<close>

theorem render_animation_loop_stuck_at_2_53:
  "(16 :: int) \<le> 160 \<and> cpp_div 160 16 = 10 \<and>
   Render_animation (\<lambda>i. 0) 16 160 1 (Finite 9007199254740994)
     \<lparr>direction = 0, currentAnimationVariant = 0,
      lastAnimationStartTime = Finite 9007199254740992, randCalls = 0\<rparr> = None"
proof -
  let ?u = "\<lparr>direction = 0, currentAnimationVariant = 0,
             lastAnimationStartTime = Finite 9007199254740992, randCalls = 0\<rparr>"
  have d: "cpp_div 160 16 = 10" by (simp add: cpp_div_def)
  have "animation_loop (\<lambda>i. 0) 1 10 (Finite 9007199254740994) ?u = None"
    using animation_loop_stuck [of "\<lambda>i. 0" 1 10 "Finite 9007199254740994" ?u]
    by (cases "animation_loop (\<lambda>i. 0) 1 10 (Finite 9007199254740994) ?u") auto
  then show ?thesis by (simp add: Render_animation_def d Let_def)
qed

text \<open>
  Further out the conversion to \<open>int\<close> is not defined: after \<open>10 ^ 8\<close> seconds without
  a new animation start, thirty times the difference is beyond the range of \<open>int\<close>.
\<close>

lemma render_animation_undefined_conversion:
  "Render_animation (\<lambda>i. 0) 16 160 1 (Finite 100000000)
     \<lparr>direction = 0, currentAnimationVariant = 0,
      lastAnimationStartTime = Finite 0, randCalls = 0\<rparr> = Some (Inl UndefinedConversion)"
proof -
  have a: "fl64 100000000 = Finite 100000000"
    by (rule fl64_exact [of 100000000 100000000 0]) simp_all
  have b: "fl64 3000000000 = Finite 3000000000"
    by (rule fl64_exact [of 3000000000 3000000000 0]) simp_all
  have c: "fl64 (6000000001 / 2) = Finite (6000000001 / 2)"
    by (rule fl64_exact [of "6000000001 / 2" 6000000001 "- 1"]) (simp_all add: powr_neg_numeral)
  have "compute_frame (Finite 100000000)
          \<lparr>direction = 0, currentAnimationVariant = 0,
           lastAnimationStartTime = Finite 0, randCalls = 0\<rparr> = Inl UndefinedConversion"
    by (simp add: compute_frame_def fp_sub_def a b c double_to_int_def Let_def)
  then show ?thesis
    by (simp add: Render_animation_def Let_def animation_loop_error)
qed


lemma fl64_one: "fl64 1 = Finite 1"
  by (rule fl64_exact [of 1 1 0]) simp_all

lemma fl64_half: "fl64 (1 / 2) = Finite (1 / 2)"
  by (rule fl64_exact [of "1 / 2" 1 "- 1"]) (simp_all add: powr_neg_numeral)

lemma example_first_frame:
  assumes "lastAnimationStartTime u = Finite (1 / 2)"
  shows "compute_frame (Finite 1) u = Inr 15"
proof -
  have b: "fl64 15 = Finite 15" by (rule fl64_exact [of 15 15 0]) simp_all
  have c: "fl64 (31 / 2) = Finite (31 / 2)"
    by (rule fl64_exact [of "31 / 2" 31 "- 1"]) (simp_all add: powr_neg_numeral)
  show ?thesis
    by (simp add: compute_frame_def assms fp_sub_def fl64_half b c double_to_int_def Let_def)
qed

lemma example_next_start:
  assumes "lastAnimationStartTime u = Finite (1 / 2)"
  shows "next_start 10 (Finite 1) u = Finite (27962027 / 33554432)"
proof -
  have a: "fl32 10 = Finite 10" by (rule fl32_exact [of 10 10 0]) simp_all
  have q: "fp_div_pos fl32 (fl32 (real_of_int 10)) 30 = Finite (11184811 / 33554432)"
    by (simp add: a fl32_third)
  have "fl64 (27962027 / 33554432) = Finite (27962027 / 33554432)"
    by (rule fl64_exact [of "27962027 / 33554432" 27962027 "- 25"])
      (simp_all add: powr_neg_numeral)
  then have sum: "fp_add fl64 (Finite (1 / 2)) (Finite (11184811 / 33554432)) =
               Finite (27962027 / 33554432)"
    by simp
  show ?thesis
    unfolding next_start_def assms q sum by (simp add: std_min_def)
qed

lemma example_second_frame:
  assumes "lastAnimationStartTime u = Finite (27962027 / 33554432)"
  shows "compute_frame (Finite 1) u = Inr 5"
proof -
  have a: "fl64 (5592405 / 33554432) = Finite (5592405 / 33554432)"
    by (rule fl64_exact [of "5592405 / 33554432" 5592405 "- 25"])
      (simp_all add: powr_neg_numeral)
  have b: "fl64 (83886075 / 16777216) = Finite (83886075 / 16777216)"
    by (rule fl64_exact [of "83886075 / 16777216" 83886075 "- 24"])
      (simp_all add: powr_neg_numeral)
  have c: "fl64 (92274683 / 16777216) = Finite (92274683 / 16777216)"
    by (rule fl64_exact [of "92274683 / 16777216" 92274683 "- 24"])
      (simp_all add: powr_neg_numeral)
  have d: "fp_sub fl64 (Finite 1) (Finite (27962027 / 33554432)) = Finite (5592405 / 33554432)"
    using a by (simp add: fp_sub_def)
  have p: "fp_mul_pos fl64 30 (Finite (5592405 / 33554432)) = Finite (83886075 / 16777216)"
    using b by simp
  have x: "fp_add fl64 (Finite (83886075 / 16777216)) (Finite 0.5) = Finite (92274683 / 16777216)"
    using c by simp
  show ?thesis
    unfolding compute_frame_def assms d p x by (simp add: double_to_int_def Let_def)
qed

lemma example_render:
  "Render_animation (\<lambda>i. 7) 16 160 2 (Finite 1) (example_unit (Finite (1 / 2))) =
     Some (Inr (5, \<lparr>direction = 3, currentAnimationVariant = 1,
                     lastAnimationStartTime = Finite (27962027 / 33554432), randCalls = 1\<rparr>))"
proof -
  let ?u = "example_unit (Finite (1 / 2))"
  let ?u2 = "\<lparr>direction = 3, currentAnimationVariant = 1,
              lastAnimationStartTime = Finite (27962027 / 33554432), randCalls = 1\<rparr>"
  have l: "lastAnimationStartTime ?u = Finite (1 / 2)" by (simp add: example_unit_def)
  have st: "loop_step (\<lambda>i. 7) 2 10 (Finite 1) ?u = ?u2"
    using example_next_start [OF l] by (simp add: loop_step_def Let_def example_unit_def)
  have "animation_loop (\<lambda>i. 7) 2 10 (Finite 1) ?u = animation_loop (\<lambda>i. 7) 2 10 (Finite 1) ?u2"
    using animation_loop_continue [OF example_first_frame [OF l], of 10 2 "\<lambda>i. 7"] st by simp
  also have "\<dots> = Some (Inr (5, ?u2))"
    by (rule animation_loop_break [OF example_second_frame]) simp_all
  finally show ?thesis
    by (simp add: Render_animation_def cpp_div_def Let_def example_unit_def)
qed


section \<open>Claim about the animation loop\<close>

text \<open>
  C10, amended. For every call of \<open>Render\<close> with \<open>kNumFacingDirections\<close> positive, a
  current sprite (so at least one animation variant, and a number of frames that is an
  \<open>int\<close>) and with \<open>serverTime\<close> and \<open>lastAnimationStartTime\<close> finite and at most
  \<open>2 ^ 25\<close> seconds in magnitude: if the sprite has at least \<open>kNumFacingDirections\<close>
  frames, then \<open>framesPerDirection\<close> is at least 1 and the loop ends, with
  \<open>0 \<le> frame < framesPerDirection\<close>; if it has fewer, then \<open>framesPerDirection\<close> is 0
  and the loop never ends (the two times being \<open>double\<close>s). Within the bound every
  conversion to \<open>int\<close> is defined and every iteration that does not \<open>break\<close> moves
  \<open>lastAnimationStartTime\<close> forward by at least 1/64 s or onto \<open>serverTime\<close>.
\<close>

theorem render_animation_loop_terminates:
  "0 < kNumFacingDirections \<Longrightarrow> 0 < numVariants \<Longrightarrow> numFrames \<le> 2147483647 \<Longrightarrow>
   lastAnimationStartTime u = Finite l \<Longrightarrow> \<bar>s\<bar> \<le> 2 ^ 25 \<Longrightarrow> \<bar>l\<bar> \<le> 2 ^ 25 \<Longrightarrow>
   (kNumFacingDirections \<le> numFrames \<longrightarrow>
      1 \<le> cpp_div numFrames kNumFacingDirections \<and>
      (\<exists>frame u'.
         Render_animation rand kNumFacingDirections numFrames numVariants (Finite s) u =
           Some (Inr (frame, u')) \<and>
         0 \<le> frame \<and> frame < cpp_div numFrames kNumFacingDirections)) \<and>
   (0 \<le> numFrames \<and> numFrames < kNumFacingDirections \<and> fl64 s = Finite s \<and> fl64 l = Finite l \<longrightarrow>
      cpp_div numFrames kNumFacingDirections = 0 \<and>
      Render_animation rand kNumFacingDirections numFrames numVariants (Finite s) u = None)"
proof -
  assume k: "0 < kNumFacingDirections" and v: "0 < numVariants"
    and n31: "numFrames \<le> 2147483647"
    and l: "lastAnimationStartTime u = Finite l" and s25: "\<bar>s\<bar> \<le> 2 ^ 25" and l25: "\<bar>l\<bar> \<le> 2 ^ 25"
  let ?fpd = "cpp_div numFrames kNumFacingDirections"
  define u1 where "u1 = (if fp_less (lastAnimationStartTime u) (Finite 0)
                         then u\<lparr>lastAnimationStartTime := Finite s\<rparr> else u)"
  define l1 where "l1 = (if l < 0 then s else l)"
  have l1: "lastAnimationStartTime u1 = Finite l1" by (simp add: u1_def l1_def l)
  have l1_25: "\<bar>l1\<bar> \<le> 2 ^ 25" using s25 l25 by (cases "l < 0") (simp_all add: l1_def)
  have R: "Render_animation rand kNumFacingDirections numFrames numVariants (Finite s) u =
           animation_loop rand numVariants ?fpd (Finite s) u1"
    using k by (simp add: Render_animation_def Let_def u1_def)
  have a: "1 \<le> ?fpd \<and>
      (\<exists>frame u'.
         Render_animation rand kNumFacingDirections numFrames numVariants (Finite s) u =
           Some (Inr (frame, u')) \<and> 0 \<le> frame \<and> frame < ?fpd)"
    if n: "kNumFacingDirections \<le> numFrames"
  proof -
    have e: "?fpd = numFrames div kNumFacingDirections"
      using k n by (simp add: cpp_div_nonneg)
    have "0 < numFrames div kNumFacingDirections"
      using pos_imp_zdiv_pos_iff [OF k, of numFrames] n by simp
    then have f1: "1 \<le> ?fpd" using e by simp
    have "numFrames div kNumFacingDirections \<le> numFrames"
      using k n by (intro int_div_le_self) simp_all
    then have f2: "?fpd \<le> 2147483647" using e n31 by simp
    from animation_loop_returns [OF f1 f2 v s25 l1 l1_25, of rand]
    show ?thesis using f1 unfolding R by simp
  qed
  have b: "?fpd = 0 \<and>
      Render_animation rand kNumFacingDirections numFrames numVariants (Finite s) u = None"
    if n: "0 \<le> numFrames \<and> numFrames < kNumFacingDirections \<and> fl64 s = Finite s \<and>
           fl64 l = Finite l"
  proof -
    have z: "?fpd = 0" using k n by (simp add: cpp_div_nonneg)
    have rep: "fl64 l1 = Finite l1" using n by (simp add: l1_def)
    have "animation_loop rand numVariants ?fpd (Finite s) u1 = None"
      using animation_loop_no_progress [of rand numVariants ?fpd "Finite s" u1]
        z v l1 s25 l1_25 n rep
      by (cases "animation_loop rand numVariants ?fpd (Finite s) u1") auto
    then show ?thesis using z unfolding R by simp
  qed
  show ?thesis using a b by simp
qed

theorem render_animation_loop_terminates_witness:
  "(0 :: int) < 16 \<and> (0 :: nat) < 2 \<and> (160 :: int) \<le> 2147483647 \<and>
   lastAnimationStartTime (example_unit (Finite (1 / 2))) = Finite (1 / 2) \<and>
   \<bar>1 :: real\<bar> \<le> 2 ^ 25 \<and> \<bar>1 / 2 :: real\<bar> \<le> 2 ^ 25 \<and> (16 :: int) \<le> 160 \<and>
   (0 :: int) \<le> 8 \<and> (8 :: int) < 16 \<and> fl64 1 = Finite 1 \<and> fl64 (1 / 2) = Finite (1 / 2) \<and>
   cpp_div 160 16 = 10 \<and>
   Render_animation (\<lambda>i. 7) 16 160 2 (Finite 1) (example_unit (Finite (1 / 2))) =
     Some (Inr (5, \<lparr>direction = 3, currentAnimationVariant = 1,
                     lastAnimationStartTime = Finite (27962027 / 33554432), randCalls = 1\<rparr>)) \<and>
   (\<exists>frame u'.
      Render_animation (\<lambda>i. 7) 16 160 2 (Finite 1) (example_unit (Finite (1 / 2))) =
        Some (Inr (frame, u')) \<and>
      0 \<le> frame \<and> frame < cpp_div 160 16) \<and>
   cpp_div 8 16 = 0 \<and>
   Render_animation (\<lambda>i. 7) 16 8 2 (Finite 1) (example_unit (Finite (1 / 2))) = None"
proof -
  have l: "lastAnimationStartTime (example_unit (Finite (1 / 2))) = Finite (1 / 2)"
    by (simp add: example_unit_def)
  have b: "\<bar>1 :: real\<bar> \<le> 2 ^ 25" "\<bar>1 / 2 :: real\<bar> \<le> 2 ^ 25" by simp_all
  note t1 = render_animation_loop_terminates
    [of 16 2 160 "example_unit (Finite (1 / 2))" "1 / 2" 1 "\<lambda>i. 7", OF _ _ _ l b]
  note t2 = render_animation_loop_terminates
    [of 16 2 8 "example_unit (Finite (1 / 2))" "1 / 2" 1 "\<lambda>i. 7", OF _ _ _ l b]
  have c1: "\<exists>frame u'.
      Render_animation (\<lambda>i. 7) 16 160 2 (Finite 1) (example_unit (Finite (1 / 2))) =
        Some (Inr (frame, u')) \<and>
      0 \<le> frame \<and> frame < cpp_div 160 16"
    using t1 by simp
  have c2: "cpp_div 8 16 = 0 \<and>
      Render_animation (\<lambda>i. 7) 16 8 2 (Finite 1) (example_unit (Finite (1 / 2))) = None"
    using t2 fl64_one fl64_half by simp
  show ?thesis
    using c1 c2 l example_render fl64_one fl64_half by (simp add: cpp_div_def)
qed

end
